theory Spec2Isabelle
  imports Main "HOL-Library.AList"
begin

section \<open>JavaScript values\<close>

text \<open>
  The stores hold plain JSON-like data. A value is null, a boolean, a number (the
  integers stand for the numbers), a string, an array or an object; an object is the
  list of its own enumerable properties in insertion order, each key once.
  An absent property (\<open>undefined\<close>) is a key that the list does not hold.
\<close>

datatype jsval =
    JNull
  | JBool bool
  | JNum int
  | JStr string
  | JArr "jsval list"
  | JObj "(string \<times> jsval) list"

type_synonym jsobj = "(string \<times> jsval) list"

text \<open>The truthiness test of \<open>!!v\<close>, \<open>v || w\<close> and \<open>if (v)\<close>.\<close>

fun truthy :: "jsval \<Rightarrow> bool" where
  "truthy JNull = False"
| "truthy (JBool b) = b"
| "truthy (JNum n) = (n \<noteq> 0)"
| "truthy (JStr s) = (s \<noteq> [])"
| "truthy (JArr xs) = True"
| "truthy (JObj ps) = True"

subsection \<open>Objects\<close>

text \<open>
  The property read \<open>obj[k]\<close> is \<open>map_of obj k\<close>. \<open>keys\<close>, \<open>pick\<close> and \<open>omit\<close> are the
  lodash functions on plain keys, \<open>spread target source\<close> is the object literal
  \<open>{...target, ...source}\<close> and \<open>assign k v obj\<close> is \<open>{...obj, [k]: v}\<close>: a key the
  target holds keeps its place and takes the new value, a new key is appended.
\<close>

definition keys :: "(string \<times> 'v) list \<Rightarrow> string list" where
  "keys obj = map fst obj"

definition pick :: "(string \<times> 'v) list \<Rightarrow> string list \<Rightarrow> (string \<times> 'v) list" where
  "pick obj paths = filter (\<lambda>(k, v). k \<in> set paths) obj"

definition omit :: "(string \<times> 'v) list \<Rightarrow> string list \<Rightarrow> (string \<times> 'v) list" where
  "omit obj paths = filter (\<lambda>(k, v). k \<notin> set paths) obj"

definition assign :: "string \<Rightarrow> 'v \<Rightarrow> (string \<times> 'v) list \<Rightarrow> (string \<times> 'v) list" where
  "assign k v obj = AList.update k v obj"

definition spread :: "(string \<times> 'v) list \<Rightarrow> (string \<times> 'v) list \<Rightarrow> (string \<times> 'v) list" where
  "spread target source = foldr (\<lambda>(k, v). assign k v) source target"

text \<open>
  \<open>patchState(store, ...updaters)\<close> of the signal store: every updater is a partial
  state or a function from the state so far to a partial state; they are folded into
  the state in order, and the result is written in one step to the signals of the
  keys that the state holds: a key of the result that the state does not hold is
  ignored.
\<close>

datatype updater = Partial jsobj | Updater "jsobj \<Rightarrow> jsobj"

definition patchState :: "jsobj \<Rightarrow> updater list \<Rightarrow> jsobj" where
  "patchState current updaters =
     pick (foldl (\<lambda>nextState u.
                    spread nextState (case u of Partial p \<Rightarrow> p | Updater f \<Rightarrow> f nextState))
                 current updaters)
          (keys current)"

section \<open>Navigation: query parameter persistence\<close>






subsection \<open>Menu routes\<close>




subsection \<open>Breadcrumb routes\<close>
















section \<open>Navigation: menu expansion\<close>

text \<open>
  A menu item object. \<open>mi_ref\<close> is the identity of the object, its address: two item
  objects are the same object exactly when their references are equal. \<open>mi_id\<close>,
  \<open>mi_expanded\<close> and \<open>mi_items\<close> are the properties \<open>id\<close>, \<open>expanded\<close> and \<open>items\<close>
  (the last two optional); \<open>mi_label\<close> stands for the label and the other attributes
  that the spread \<open>...menuItem\<close> copies.
\<close>

datatype MenuItem =
  MenuItem (mi_ref: nat) (mi_id: int) (mi_label: string)
           (mi_expanded: "bool option") (mi_items: "MenuItem list option")

text \<open>\<open>!expanded\<close> on the optional flag: \<open>undefined\<close> is falsy.\<close>

fun negate :: "bool option \<Rightarrow> bool" where
  "negate None = True"
| "negate (Some b) = (\<not> b)"

text \<open>
  \<open>updateMenuExpansion\<close> maps over the array; \<open>updateMenuItem\<close> is the callback of
  that \<open>map\<close>. The last argument is the next free address: the callback first updates
  the children, then builds the object literal it returns, which is a new object.
\<close>

fun updateMenuItem :: "int \<Rightarrow> MenuItem \<Rightarrow> nat \<Rightarrow> MenuItem \<times> nat"
  and updateMenuExpansion :: "int \<Rightarrow> MenuItem list \<Rightarrow> nat \<Rightarrow> MenuItem list \<times> nat"
where
  "updateMenuItem menuId (MenuItem r i l expanded None) n =
     (let requiresExpansion = (if i = menuId then Some (negate expanded) else expanded)
      in (MenuItem n i l requiresExpansion None, Suc n))"
| "updateMenuItem menuId (MenuItem r i l expanded (Some items)) n =
     (let requiresExpansion = (if i = menuId then Some (negate expanded) else expanded);
          (updatedMenuItems, n') = updateMenuExpansion menuId items n
      in (MenuItem n' i l requiresExpansion (Some updatedMenuItems), Suc n'))"
| "updateMenuExpansion menuId [] n = ([], n)"
| "updateMenuExpansion menuId (menuItem # rest) n =
     (let (updated, n') = updateMenuItem menuId menuItem n;
          (others, n'') = updateMenuExpansion menuId rest n'
      in (updated # others, n''))"

text \<open>Every item object of a tree, parents before children, siblings in order.\<close>

fun flatten :: "MenuItem \<Rightarrow> MenuItem list"
  and flattens :: "MenuItem list \<Rightarrow> MenuItem list"
where
  "flatten (MenuItem r i l e None) = [MenuItem r i l e None]"
| "flatten (MenuItem r i l e (Some items)) = MenuItem r i l e (Some items) # flattens items"
| "flattens [] = []"
| "flattens (x # xs) = flatten x @ flattens xs"

section \<open>Reset state\<close>

text \<open>
  A store composed with \<open>withResetState\<close>: its state source and the closure variable
  \<open>initialState\<close> of the feature, which starts as an empty object. Every store that
  \<open>signalStore\<close> builds carries the state source, so \<open>getStateSource\<close> returns its state.
\<close>

record ResetStore =
  rs_state :: jsobj
  rs_initialState :: jsobj

definition newResetStore :: "jsobj \<Rightarrow> ResetStore" where
  "newResetStore initial = \<lparr>rs_state = initial, rs_initialState = []\<rparr>"

definition getStateSource :: "ResetStore \<Rightarrow> jsobj" where
  "getStateSource store = rs_state store"

definition setInitialState :: "jsobj \<Rightarrow> ResetStore \<Rightarrow> ResetStore" where
  "setInitialState s store = store\<lparr>rs_initialState := s\<rparr>"

definition onInit_reset :: "ResetStore \<Rightarrow> ResetStore" where
  "onInit_reset store = setInitialState (getStateSource store) store"

definition resetState :: "jsobj option \<Rightarrow> ResetStore \<Rightarrow> ResetStore" where
  "resetState overrideState store =
     store\<lparr>rs_state :=
       patchState (rs_state store)
         [Partial (case overrideState of Some s \<Rightarrow> s | None \<Rightarrow> rs_initialState store)]\<rparr>"

text \<open>A sequence of \<open>patchState\<close> calls on the store, each with its updaters.\<close>

definition patches :: "updater list list \<Rightarrow> ResetStore \<Rightarrow> ResetStore" where
  "patches calls store =
     foldl (\<lambda>st updaters. st\<lparr>rs_state := patchState (rs_state st) updaters\<rparr>) store calls"

text \<open>
  The keys that the type \<open>TStore\<close> leaves out: those that match the template
  \<open>_${string}\<close>.
\<close>

fun internal :: "string \<Rightarrow> bool" where
  "internal [] = False"
| "internal (c # cs) = (c = CHR ''_'')"

section \<open>Request status\<close>

datatype TRequestStatus = Idle | Pending | Fulfilled | Rejected

text \<open>
  \<open>IRequestEntity\<close>: \<open>message\<close> is a string or null, \<open>data\<close> is optional (\<open>None\<close> when
  the entity has no such property).
\<close>

record IRequestEntity =
  entity_status :: TRequestStatus
  entity_message :: jsval
  entity_data :: "jsval option"

record IRequestSnapshot =
  snap_event :: string
  snap_data :: jsval
  snap_status :: TRequestStatus
  snap_message :: jsval
  isPending :: bool
  isDisabled :: bool
  isRejected :: bool
  isFulfilled :: bool
  isIdle :: bool

type_synonym request_map = "(string \<times> IRequestEntity) list"

text \<open>
  \<open>IRequestStatusPayload\<close>, the payload of \<open>markFulfilled\<close> and \<open>markRejected\<close>.
  \<open>payload_fields\<close> are its fields with JSON values: \<open>message\<close>, \<open>data\<close> and fields of
  the host state. \<open>payload_requests\<close> is its field \<open>requests\<close> when it has one; that
  name is a key of the store's state, whose slice holds request entities by event.
  \<open>payloadOf\<close> is a payload without that field.
\<close>

record IRequestStatusPayload =
  payload_fields :: jsobj
  payload_requests :: "request_map option"

definition payloadOf :: "jsobj \<Rightarrow> IRequestStatusPayload" where
  "payloadOf obj = \<lparr>payload_fields = obj, payload_requests = None\<rparr>"

text \<open>
  The store that \<open>withRequestStatus\<close> extends. Its state source has the slice
  \<open>requests\<close> and the slices of the host store, \<open>hostState\<close>, the state type \<open>TState\<close>
  that the payloads refer to. \<open>eventTimeouts\<close> is the map of the hooks from event to
  timer id. \<open>timers\<close> are the pending timeouts of the runtime in the order of their
  creation: id, due time and the event that the callback resets; \<open>nextTimer\<close> is the
  next id and \<open>now\<close> the clock, in milliseconds.
\<close>

record RequestStore =
  requests :: request_map
  hostState :: jsobj
  eventTimeouts :: "(string \<times> nat) list"
  timers :: "(nat \<times> nat \<times> string) list"
  nextTimer :: nat
  now :: nat
  resetDelay :: nat

text \<open>\<open>Object.fromEntries\<close> over the events, each mapped to an idle entity.\<close>

definition initialState :: "string list \<Rightarrow> request_map" where
  "initialState events =
     foldl (\<lambda>obj event.
              assign event \<lparr>entity_status = Idle, entity_message = JNull, entity_data = None\<rparr> obj)
           [] events"

definition withRequestStatus :: "nat \<Rightarrow> string list \<Rightarrow> jsobj \<Rightarrow> RequestStore" where
  "withRequestStatus delay events host =
     \<lparr>requests = initialState events, hostState = host, eventTimeouts = [], timers = [],
      nextTimer = 0, now = 0, resetDelay = delay\<rparr>"

definition defaultResetDelay :: nat where
  "defaultResetDelay = 1500"

definition getRequestSnapshot :: "string \<Rightarrow> IRequestEntity option \<Rightarrow> IRequestSnapshot" where
  "getRequestSnapshot event entity =
     \<lparr>snap_event = event,
      snap_data = (case entity of None \<Rightarrow> JNull
                   | Some e \<Rightarrow> (case entity_data e of None \<Rightarrow> JNull | Some d \<Rightarrow> d)),
      snap_status = (case entity of None \<Rightarrow> Idle | Some e \<Rightarrow> entity_status e),
      snap_message = (case entity of None \<Rightarrow> JNull
                      | Some e \<Rightarrow> if truthy (entity_message e) then entity_message e else JNull),
      isPending = (case entity of None \<Rightarrow> False | Some e \<Rightarrow> entity_status e = Pending),
      isDisabled = (case entity of None \<Rightarrow> False | Some e \<Rightarrow> entity_status e = Pending),
      isRejected = (case entity of None \<Rightarrow> False | Some e \<Rightarrow> entity_status e = Rejected),
      isFulfilled = (case entity of None \<Rightarrow> False | Some e \<Rightarrow> entity_status e = Fulfilled),
      isIdle = (case entity of None \<Rightarrow> True | Some e \<Rightarrow> entity_status e = Idle)\<rparr>"

text \<open>The \<open>get\<close> trap of the proxy that \<open>requestStatus\<close> returns.\<close>

definition requestStatus :: "RequestStore \<Rightarrow> string \<Rightarrow> IRequestSnapshot" where
  "requestStatus store event = getRequestSnapshot event (map_of (requests store) event)"

text \<open>
  The updaters. An event is its type string (\<open>getEventType\<close> of a string is the string).
  Each updater returns \<open>{...state.requests, [event]: entity}\<close> with a new entity literal.
  \<open>optional payload k\<close> is the read \<open>payload?.k\<close>; a missing payload or property
  reads as null, which \<open>||\<close>, \<open>??\<close> and \<open>!!\<close> treat as they treat \<open>undefined\<close>.
\<close>

definition optional :: "jsobj option \<Rightarrow> string \<Rightarrow> jsval" where
  "optional payload k =
     (case payload of None \<Rightarrow> JNull
      | Some obj \<Rightarrow> (case map_of obj k of None \<Rightarrow> JNull | Some v \<Rightarrow> v))"

definition setIdle :: "string \<Rightarrow> request_map \<Rightarrow> request_map" where
  "setIdle event state =
     assign event \<lparr>entity_status = Idle, entity_message = JNull, entity_data = None\<rparr> state"

definition setPending :: "string \<Rightarrow> request_map \<Rightarrow> request_map" where
  "setPending event state =
     assign event \<lparr>entity_status = Pending, entity_message = JNull, entity_data = None\<rparr> state"

definition setFulfilled :: "string \<Rightarrow> jsobj option \<Rightarrow> request_map \<Rightarrow> request_map" where
  "setFulfilled event payload state =
     assign event
       \<lparr>entity_status = Fulfilled,
        entity_message =
          (if truthy (optional payload ''message'') then optional payload ''message'' else JNull),
        entity_data =
          (if truthy (optional payload ''data'') then Some (optional payload ''data'') else None)\<rparr>
       state"

definition setRejected :: "string \<Rightarrow> jsobj option \<Rightarrow> request_map \<Rightarrow> request_map" where
  "setRejected event payload state =
     assign event
       \<lparr>entity_status = Rejected,
        entity_message =
          (if truthy (optional payload ''message'') then optional payload ''message'' else JNull),
        entity_data =
          (if truthy (optional payload ''data'') then Some (optional payload ''data'') else None)\<rparr>
       state"

text \<open>
  The timers of the runtime. The callback of every timeout that the feature sets is
  \<open>patchState(store, setIdle(event))\<close>, so a pending timer is recorded with its event.
  The runtime reads the delay as a signed 32-bit integer: it takes the delay modulo
  4294967296, and a value from 2147483648 on, which reads as negative, counts as 0.
\<close>

definition timeoutDelay :: "nat \<Rightarrow> nat" where
  "timeoutDelay delay =
     (if delay mod 4294967296 < 2147483648 then delay mod 4294967296 else 0)"

definition clearTimeout :: "nat \<Rightarrow> RequestStore \<Rightarrow> RequestStore" where
  "clearTimeout t store = store\<lparr>timers := filter (\<lambda>(i, due, ev). i \<noteq> t) (timers store)\<rparr>"

definition setTimeout :: "string \<Rightarrow> RequestStore \<Rightarrow> nat \<times> RequestStore" where
  "setTimeout event store =
     (nextTimer store,
      store\<lparr>timers := timers store @
                         [(nextTimer store, now store + timeoutDelay (resetDelay store), event)],
            nextTimer := Suc (nextTimer store)\<rparr>)"

text \<open>
  The effect that \<open>onInit\<close> registers. It reads \<open>store.requests()\<close> and runs again after
  every patch of that slice; \<open>scheduleReset\<close> is the body of its \<open>forEach\<close>.
\<close>

definition scheduleReset :: "string \<times> IRequestEntity \<Rightarrow> RequestStore \<Rightarrow> RequestStore" where
  "scheduleReset entry store =
     (case entry of (event, request) \<Rightarrow>
        if entity_status request = Fulfilled \<or> entity_status request = Rejected then
          (let cleared = (case map_of (eventTimeouts store) event of
                            Some t \<Rightarrow> clearTimeout t store
                          | None \<Rightarrow> store);
               (eventTimeout, scheduled) = setTimeout event cleared
           in scheduled\<lparr>eventTimeouts := assign event eventTimeout (eventTimeouts scheduled)\<rparr>)
        else store)"

definition statusEffect :: "RequestStore \<Rightarrow> RequestStore" where
  "statusEffect store = fold scheduleReset (requests store) store"

text \<open>
  The methods. Each is one \<open>patchState\<close> call, after which the effect runs.
  In \<open>markResolved\<close> the keys of the state source are those of the host state and
  \<open>requests\<close>; \<open>pickPayload\<close> is \<open>pick(result, stateKeys)\<close>. The patch applies the status
  updater and then the picked payload, so a field \<open>requests\<close> of the payload is
  written over the slice that the updater returned.
\<close>

definition markPending :: "string \<Rightarrow> RequestStore \<Rightarrow> RequestStore" where
  "markPending event store = statusEffect (store\<lparr>requests := setPending event (requests store)\<rparr>)"

definition pickPayload :: "IRequestStatusPayload option \<Rightarrow> string list \<Rightarrow> IRequestStatusPayload" where
  "pickPayload result paths =
     (case result of
        None \<Rightarrow> \<lparr>payload_fields = [], payload_requests = None\<rparr>
      | Some r \<Rightarrow>
          \<lparr>payload_fields = pick (payload_fields r) paths,
           payload_requests = (if ''requests'' \<in> set paths then payload_requests r else None)\<rparr>)"

definition markResolved ::
  "string \<Rightarrow> TRequestStatus \<Rightarrow> IRequestStatusPayload option \<Rightarrow> RequestStore \<Rightarrow> RequestStore"
where
  "markResolved event status result store =
     (let data = optional (map_option payload_fields result) ''data'';
          message = (case optional (map_option payload_fields result) ''message'' of
                       JNull \<Rightarrow> JStr [] | m \<Rightarrow> m);
          stateKeys = keys (hostState store) @ [''requests''];
          normalizedState = pickPayload result stateKeys;
          statusUpdater =
            (if status = Fulfilled
             then setFulfilled event (Some [(''data'', data), (''message'', message)])
             else setRejected event (Some [(''data'', data), (''message'', message)]))
      in statusEffect
           (store\<lparr>requests := (case payload_requests normalizedState of
                                  Some slice \<Rightarrow> slice
                                | None \<Rightarrow> statusUpdater (requests store)),
                  hostState := patchState (hostState store)
                                 [Partial (payload_fields normalizedState)]\<rparr>))"

definition markFulfilled ::
  "string \<Rightarrow> IRequestStatusPayload option \<Rightarrow> RequestStore \<Rightarrow> RequestStore"
where
  "markFulfilled event result store = markResolved event Fulfilled result store"

definition markRejected ::
  "string \<Rightarrow> IRequestStatusPayload option \<Rightarrow> RequestStore \<Rightarrow> RequestStore"
where
  "markRejected event result store = markResolved event Rejected result store"

text \<open>
  The passing of time. \<open>fire\<close> is the callback of a timer, which patches its event to
  idle. \<open>runTimers\<close> takes the timers that are due out of the pending ones and runs
  their callbacks in the order of their creation; the callbacks have patched the
  slice, so the effect runs after them, once. \<open>elapse ms\<close> lets \<open>ms\<close> milliseconds
  pass.
\<close>

definition fire :: "nat \<times> nat \<times> string \<Rightarrow> RequestStore \<Rightarrow> RequestStore" where
  "fire timer store =
     (case timer of (t, due, event) \<Rightarrow> store\<lparr>requests := setIdle event (requests store)\<rparr>)"

definition runTimers :: "RequestStore \<Rightarrow> RequestStore" where
  "runTimers store =
     (let dueTimers = filter (\<lambda>(t, due, ev). due \<le> now store) (timers store);
          waiting = filter (\<lambda>(t, due, ev). \<not> due \<le> now store) (timers store)
      in if dueTimers = [] then store
         else statusEffect (fold fire dueTimers (store\<lparr>timers := waiting\<rparr>)))"

fun elapse :: "nat \<Rightarrow> RequestStore \<Rightarrow> RequestStore" where
  "elapse 0 store = runTimers store"
| "elapse (Suc ms) store =
     elapse ms ((runTimers store)\<lparr>now := Suc (now (runTimers store))\<rparr>)"

text \<open>Whether a request has settled, which is when the effect schedules its reset.\<close>

definition settled :: "IRequestEntity \<Rightarrow> bool" where
  "settled request = (entity_status request = Fulfilled \<or> entity_status request = Rejected)"

text \<open>
  Notions for the statements below. In a store of the feature the slice is an object,
  each key once, every timer id in \<open>eventTimeouts\<close> has been handed out, and every
  pending timer is the one that \<open>eventTimeouts\<close> holds for its event: \<open>tracked\<close>. It
  holds when the store is created and every method and every timer keeps it.
  \<open>settledTimers event\<close> says that every pending timer is that of \<open>event\<close> or of an
  event that is settled. \<open>resolvedEntity\<close> is the entity literal that \<open>markResolved\<close>
  stores through \<open>setFulfilled\<close> or \<open>setRejected\<close>.
\<close>

definition tracked :: "RequestStore \<Rightarrow> bool" where
  "tracked store =
     (distinct (keys (requests store)) \<and>
      (\<forall>entry \<in> set (eventTimeouts store). snd entry < nextTimer store) \<and>
      (\<forall>timer \<in> set (timers store).
         map_of (eventTimeouts store) (snd (snd timer)) = Some (fst timer)))"

definition settledTimers :: "string \<Rightarrow> RequestStore \<Rightarrow> bool" where
  "settledTimers event store =
     (\<forall>timer \<in> set (timers store).
        snd (snd timer) = event \<or>
        (case map_of (requests store) (snd (snd timer)) of
           Some request \<Rightarrow> settled request
         | None \<Rightarrow> False))"

definition resolvedEntity :: "TRequestStatus \<Rightarrow> jsobj option \<Rightarrow> IRequestEntity" where
  "resolvedEntity status result =
     \<lparr>entity_status = (if status = Fulfilled then Fulfilled else Rejected),
      entity_message =
        (if truthy (optional result ''message'') then optional result ''message'' else JNull),
      entity_data =
        (if truthy (optional result ''data'') then Some (optional result ''data'') else None)\<rparr>"

text \<open>
  A store for the examples: it tracks \<open>SEARCH\<close> and \<open>SAVE\<close> with a reset delay of 3 ms.
  \<open>SEARCH\<close> was fulfilled at 0 ms and marked pending again at 1 ms, for a new search.
\<close>

definition searchAgain :: RequestStore where
  "searchAgain =
     markPending ''SEARCH''
       (elapse 1 (markFulfilled ''SEARCH'' None (withRequestStatus 3 [''SEARCH'', ''SAVE''] [])))"

section \<open>Storage\<close>

text \<open>A thrown value.\<close>

datatype exn = Exn string

text \<open>
  The storage backend that the factory \<open>options.storage\<close> returns: \<open>getItem\<close> and
  \<open>setItem\<close> act on the items that the backend holds and may throw. \<open>localStorage\<close> is a
  backend that stores every item and never throws.
\<close>

record Storage =
  getItem :: "(string \<times> string) list \<Rightarrow> string \<Rightarrow> exn + string option"
  setItem :: "(string \<times> string) list \<Rightarrow> string \<Rightarrow> string \<Rightarrow> exn + (string \<times> string) list"

definition localStorage :: Storage where
  "localStorage =
     \<lparr>getItem = (\<lambda>items k. Inr (map_of items k)),
      setItem = (\<lambda>items k v. Inr (assign k v items))\<rparr>"

text \<open>
  \<open>IStorageBroadcast\<close> and the normalized \<open>IStorageOptions\<close>. Every function that the
  caller supplies may throw: its result is the thrown value or the value returned.
  \<open>storage\<close> is the result of calling the factory. \<open>deserialize\<close> returns a state or
  null. The callback \<open>exception\<close> receives the errors; below it records them.
\<close>

record IStorageBroadcast =
  broadcast_key :: "string option"
  broadcast_onChange :: "(jsobj option \<Rightarrow> exn option) option"

record IStorageOptions =
  include_keys :: "string list"
  exclude_keys :: "string list"
  storage :: "exn + Storage"
  broadcast :: "IStorageBroadcast option"
  deserialize :: "string \<Rightarrow> exn + jsobj option"
  shouldStore :: "jsobj \<Rightarrow> exn + bool"
  serialize :: "jsobj \<Rightarrow> exn + string"

text \<open>
  What the feature reads of its surroundings: the application name of the
  configuration, lodash's \<open>kebabCase\<close>, the constructor of \<open>BroadcastChannel\<close>, which
  may throw, and whether the platform is the server.
\<close>

record Platform =
  applicationName :: string
  kebabCase :: "string \<Rightarrow> string"
  newBroadcastChannel :: "string \<Rightarrow> exn option"
  isPlatformServer :: bool

text \<open>
  One store instance in its browsing context: the state of the store, the items of
  the storage backend, the open broadcast channel (its identifier) if there is one,
  the messages posted on the channel and the errors handed to \<open>exception\<close>, both in
  order, and whether a signal of the state has been written, which is what makes the
  runtime run again an effect that reads the state.
\<close>

record Tab =
  tab_state :: jsobj
  storageItems :: "(string \<times> string) list"
  broadcastStream :: "string option"
  posted :: "string list"
  reported :: "exn list"
  signalWritten :: bool

definition newTab :: "jsobj \<Rightarrow> (string \<times> string) list \<Rightarrow> Tab" where
  "newTab initial items =
     \<lparr>tab_state = initial, storageItems = items, broadcastStream = None, posted = [],
      reported = [], signalWritten = False\<rparr>"

text \<open>
  A piece of code acts on the tab and either throws or returns a value. \<open>andThen\<close> is
  sequencing: a throw skips what follows. \<open>tryCatch body handler\<close> is
  \<open>try { body } catch (error) { handler(error) }\<close>: what the body did before it
  threw stays done.
\<close>

type_synonym 'a action = "Tab \<Rightarrow> (exn + 'a) \<times> Tab"

definition ret :: "'a \<Rightarrow> 'a action" where
  "ret v tab = (Inr v, tab)"

definition call :: "exn + 'a \<Rightarrow> 'a action" where
  "call result tab = (result, tab)"

definition andThen :: "'a action \<Rightarrow> ('a \<Rightarrow> 'b action) \<Rightarrow> 'b action" where
  "andThen first next tab =
     (case first tab of
        (Inl error, tab') \<Rightarrow> (Inl error, tab')
      | (Inr v, tab') \<Rightarrow> next v tab')"

definition tryCatch :: "'a action \<Rightarrow> (exn \<Rightarrow> 'a action) \<Rightarrow> 'a action" where
  "tryCatch body handler tab =
     (case body tab of
        (Inl error, tab') \<Rightarrow> handler error tab'
      | (Inr v, tab') \<Rightarrow> (Inr v, tab'))"

definition exception :: "exn \<Rightarrow> unit action" where
  "exception error tab = (Inr (), tab\<lparr>reported := reported tab @ [error]\<rparr>)"

definition storage_getItem :: "IStorageOptions \<Rightarrow> string \<Rightarrow> string option action" where
  "storage_getItem options key tab =
     (case storage options of
        Inl error \<Rightarrow> (Inl error, tab)
      | Inr backend \<Rightarrow> (getItem backend (storageItems tab) key, tab))"

definition storage_setItem :: "IStorageOptions \<Rightarrow> string \<Rightarrow> string \<Rightarrow> unit action" where
  "storage_setItem options key v tab =
     (case storage options of
        Inl error \<Rightarrow> (Inl error, tab)
      | Inr backend \<Rightarrow>
          (case setItem backend (storageItems tab) key v of
             Inl error \<Rightarrow> (Inl error, tab)
           | Inr items \<Rightarrow> (Inr (), tab\<lparr>storageItems := items\<rparr>)))"

text \<open>\<open>broadcastStream?.postMessage(value)\<close>.\<close>

definition postMessage :: "string \<Rightarrow> unit action" where
  "postMessage v tab =
     (case broadcastStream tab of
        None \<Rightarrow> (Inr (), tab)
      | Some channel \<Rightarrow> (Inr (), tab\<lparr>posted := posted tab @ [v]\<rparr>))"

text \<open>\<open>broadcast?.onChange?.(state)\<close>.\<close>

definition notifyChange :: "IStorageOptions \<Rightarrow> jsobj option \<Rightarrow> unit action" where
  "notifyChange options incoming =
     (case broadcast options of
        None \<Rightarrow> ret ()
      | Some config \<Rightarrow>
          (case broadcast_onChange config of
             None \<Rightarrow> ret ()
           | Some onChange \<Rightarrow>
               (case onChange incoming of None \<Rightarrow> ret () | Some error \<Rightarrow> call (Inl error))))"

text \<open>
  \<open>patchState\<close> writes the signal of a key when the new value is not identical to the
  current one. The incoming state has just been deserialized: its numbers, strings,
  booleans and null are identical to equal ones, its arrays and objects are new and
  identical to none.
\<close>

fun isReference :: "jsval \<Rightarrow> bool" where
  "isReference (JArr xs) = True"
| "isReference (JObj ps) = True"
| "isReference v = False"

definition writesSignal :: "jsobj \<Rightarrow> jsobj \<Rightarrow> bool" where
  "writesSignal current incoming =
     list_ex (\<lambda>(k, v). isReference v \<or> map_of current k \<noteq> Some v) incoming"

definition sanitizeAndUpdateState :: "jsobj option \<Rightarrow> unit action" where
  "sanitizeAndUpdateState incoming tab =
     (case incoming of
        None \<Rightarrow> (Inr (), tab)
      | Some s \<Rightarrow>
          (let stateSource = tab_state tab;
               sanitizedState = pick s (keys stateSource)
           in if sanitizedState \<noteq> []
              then (Inr (),
                    tab\<lparr>tab_state := patchState (tab_state tab) [Partial sanitizedState],
                        signalWritten :=
                          (signalWritten tab \<or> writesSignal (tab_state tab) sanitizedState)\<rparr>)
              else (Inr (), tab)))"

definition resolvePersistedState :: "string \<Rightarrow> IStorageOptions \<Rightarrow> jsobj option action" where
  "resolvePersistedState key options =
     tryCatch
       (andThen (storage_getItem options key) (\<lambda>persistedValue.
          case persistedValue of
            None \<Rightarrow> ret None
          | Some v \<Rightarrow> if v = [] then ret None else call (deserialize options v)))
       (\<lambda>error. andThen (exception error) (\<lambda>u. ret None))"

definition rehydratePersistedState :: "string \<Rightarrow> IStorageOptions \<Rightarrow> unit action" where
  "rehydratePersistedState key options =
     andThen (resolvePersistedState key options) sanitizeAndUpdateState"

text \<open>The handler that \<open>_setupBroadcastListener\<close> installs as \<open>onmessage\<close>.\<close>

definition onmessage :: "string \<Rightarrow> IStorageOptions \<Rightarrow> string \<Rightarrow> unit action" where
  "onmessage key options serializedValue =
     (if serializedValue = [] then ret ()
      else tryCatch
             (andThen (call (deserialize options serializedValue)) (\<lambda>deserializedValue.
              andThen (sanitizeAndUpdateState deserializedValue) (\<lambda>u.
              andThen (notifyChange options deserializedValue) (\<lambda>u.
              storage_setItem options key serializedValue))))
             exception)"

definition channelIdentifier :: "Platform \<Rightarrow> string \<Rightarrow> IStorageBroadcast \<Rightarrow> string" where
  "channelIdentifier platform key config =
     (let channelNamespace = kebabCase platform (applicationName platform) @ ''-channel-'' @ key
      in case broadcast_key config of Some k \<Rightarrow> k | None \<Rightarrow> channelNamespace)"

definition setupBroadcastListener ::
  "Platform \<Rightarrow> string \<Rightarrow> IStorageOptions \<Rightarrow> string option action"
where
  "setupBroadcastListener platform key options =
     (case broadcast options of
        None \<Rightarrow> ret None
      | Some config \<Rightarrow>
          tryCatch
            (andThen
               (call (case newBroadcastChannel platform (channelIdentifier platform key config) of
                        Some error \<Rightarrow> Inl error
                      | None \<Rightarrow> Inr (channelIdentifier platform key config)))
               (\<lambda>channelInstance. ret (Some channelInstance)))
            (\<lambda>error. andThen (exception error) (\<lambda>u. ret None)))"

text \<open>The body of the effect that \<open>onInit\<close> registers.\<close>

definition persistableState :: "IStorageOptions \<Rightarrow> jsobj \<Rightarrow> jsobj" where
  "persistableState options currentState =
     (if include_keys options \<noteq> [] then pick currentState (include_keys options)
      else omit currentState (exclude_keys options))"

definition persistEffect :: "string \<Rightarrow> IStorageOptions \<Rightarrow> unit action" where
  "persistEffect key options tab =
     andThen (call (shouldStore options (tab_state tab))) (\<lambda>should.
       if \<not> should then ret ()
       else tryCatch
              (andThen (call (serialize options (persistableState options (tab_state tab))))
                 (\<lambda>serializedValue.
               andThen (postMessage serializedValue) (\<lambda>u.
               storage_setItem options key serializedValue)))
              exception) tab"

text \<open>
  \<open>onInit\<close>, with the first run of the effect, and \<open>onDestroy\<close>.
\<close>

definition onInit_storage :: "Platform \<Rightarrow> string \<Rightarrow> IStorageOptions \<Rightarrow> unit action" where
  "onInit_storage platform key options =
     (if isPlatformServer platform then ret ()
      else andThen (rehydratePersistedState key options) (\<lambda>u.
           andThen (setupBroadcastListener platform key options) (\<lambda>channel.
           andThen (\<lambda>tab. (Inr (), tab\<lparr>broadcastStream := channel\<rparr>)) (\<lambda>u.
           persistEffect key options))))"

definition onDestroy_storage :: "unit action" where
  "onDestroy_storage tab = (Inr (), tab\<lparr>broadcastStream := None\<rparr>)"

text \<open>
  The arrival of a message on the open channel, at a time when the effect has run
  since the last write. The handler runs; the effect reads the state of the store,
  so the runtime runs it again when the handler has written a signal of the state.
\<close>

definition deliver :: "string \<Rightarrow> IStorageOptions \<Rightarrow> string \<Rightarrow> unit action" where
  "deliver key options serializedValue tab =
     (case broadcastStream tab of
        None \<Rightarrow> (Inr (), tab)
      | Some channel \<Rightarrow>
          (case onmessage key options serializedValue (tab\<lparr>signalWritten := False\<rparr>) of
             (Inl error, tab') \<Rightarrow> (Inl error, tab')
           | (Inr u, tab') \<Rightarrow>
               if signalWritten tab' then persistEffect key options (tab'\<lparr>signalWritten := False\<rparr>)
               else (Inr (), tab')))"

text \<open>
  Options for the examples: a store that persists one field, a string, as its text.
  \<open>layoutOptions\<close> are the options of \<open>LayoutStore\<close> with such a serializer.
\<close>

definition fieldSerialize :: "string \<Rightarrow> jsobj \<Rightarrow> exn + string" where
  "fieldSerialize field obj =
     (case map_of obj field of Some (JStr text) \<Rightarrow> Inr text | _ \<Rightarrow> Inl (Exn ''TypeError''))"

definition fieldDeserialize :: "string \<Rightarrow> string \<Rightarrow> exn + jsobj option" where
  "fieldDeserialize field text = Inr (Some [(field, JStr text)])"


definition layoutOptions :: IStorageOptions where
  "layoutOptions =
     \<lparr>include_keys = [''platformLayoutMode''], exclude_keys = [], storage = Inr localStorage,
      broadcast = Some \<lparr>broadcast_key = Some ''layout-channel'', broadcast_onChange = None\<rparr>,
      deserialize = fieldDeserialize ''platformLayoutMode'',
      shouldStore = (\<lambda>state. Inr (map_of state ''platformLayoutMode'' \<noteq> Some (JStr ''collapsed''))),
      serialize = fieldSerialize ''platformLayoutMode''\<rparr>"

definition layoutState :: jsobj where
  "layoutState =
     [(''accessLayoutMode'', JStr ''extended''), (''platformLayoutMode'', JStr ''extended''),
      (''isNavigationDrawerVisible'', JBool False)]"

text \<open>
  Further examples. \<open>stubOptions\<close> has a serializer that writes one blob for one
  object and a deserializer that reads it back. \<open>browser\<close> is a client platform on
  which channels can be opened and \<open>restricted\<close> one on which the constructor throws.
  \<open>layoutTab\<close> is a tab of \<open>LayoutStore\<close> after \<open>onInit\<close>. In \<open>brokenOptions\<close> the
  storage factory, the serializer and the deserializer throw. In \<open>fullOptions\<close> the
  backend is full: it reads, and every write throws.
\<close>

definition stubOptions :: "string list \<Rightarrow> string \<Rightarrow> jsobj \<Rightarrow> IStorageOptions" where
  "stubOptions included blob parsed =
     \<lparr>include_keys = included, exclude_keys = [], storage = Inr localStorage,
      broadcast = None,
      deserialize = (\<lambda>v. if v = blob then Inr (Some parsed) else Inl (Exn ''SyntaxError'')),
      shouldStore = (\<lambda>state. Inr True),
      serialize = (\<lambda>obj. if obj = parsed then Inr blob else Inl (Exn ''TypeError''))\<rparr>"

definition browser :: Platform where
  "browser =
     \<lparr>applicationName = ''Angular'', kebabCase = (\<lambda>name. ''angular''),
      newBroadcastChannel = (\<lambda>identifier. None), isPlatformServer = False\<rparr>"

definition layoutTab :: Tab where
  "layoutTab = snd (onInit_storage browser ''layout'' layoutOptions (newTab layoutState []))"




section \<open>Properties\<close>

subsection \<open>Query parameter persistence\<close>








subsection \<open>Objects as association lists\<close>

lemma map_of_assign: "map_of (assign k v obj) = (map_of obj)(k \<mapsto> v)"
  by (simp add: assign_def update_conv')

lemma map_of_spread: "map_of (spread target source) = map_of target ++ map_of source"
  by (induction source) (auto simp: spread_def map_of_assign fun_eq_iff map_add_def)

lemma map_of_pick: "map_of (pick obj paths) k = (if k \<in> set paths then map_of obj k else None)"
  by (induction obj) (auto simp: pick_def)

lemma map_of_omit: "map_of (omit obj paths) k = (if k \<in> set paths then None else map_of obj k)"
  by (induction obj) (auto simp: omit_def)

lemma keys_iff: "k \<in> set (keys obj) \<longleftrightarrow> map_of obj k \<noteq> None"
  by (induction obj) (auto simp: keys_def)

lemma map_of_patchState_partial:
  "map_of (patchState current [Partial p]) k =
     (if k \<in> set (keys current) \<and> map_of p k \<noteq> None then map_of p k else map_of current k)"
  by (auto simp: patchState_def map_of_pick map_of_spread map_add_def keys_iff
        split: option.splits)

lemma keys_patchState: "k \<in> set (keys (patchState current updaters)) \<longleftrightarrow> k \<in> set (keys current)"
proof -
  have grow: "map_of st k \<noteq> None \<Longrightarrow>
      map_of (foldl (\<lambda>nextState u.
                spread nextState (case u of Partial p \<Rightarrow> p | Updater f \<Rightarrow> f nextState))
              st updaters) k \<noteq> None" for st
    by (induction updaters arbitrary: st)
       (auto simp: map_of_spread map_add_def split: option.splits)
  show ?thesis
    using grow[of current]
    by (auto simp: keys_iff patchState_def map_of_pick)
qed

text \<open>A patch adds no key to the state.\<close>

lemma patchState_unknown_key:
  "k \<notin> set (keys current) \<Longrightarrow> map_of (patchState current updaters) k = None"
  using keys_patchState[of k current updaters] by (simp add: keys_iff)

subsection \<open>Menu expansion\<close>

lemma counter_mono:
  "n \<le> snd (updateMenuItem m x n)"
  "n \<le> snd (updateMenuExpansion m xs n)"
proof (induction m x n and m xs n rule: updateMenuItem_updateMenuExpansion.induct)
  case (2 menuId r i l expanded items n)
  then show ?case by (auto simp: Let_def split: prod.splits)
next
  case (4 menuId menuItem rest n)
  then show ?case by (fastforce simp: Let_def split: prod.splits)
qed simp_all

lemma fresh_refs:
  "y \<in> set (flatten (fst (updateMenuItem m x n))) \<Longrightarrow>
     n \<le> mi_ref y \<and> mi_ref y < snd (updateMenuItem m x n)"
  "y \<in> set (flattens (fst (updateMenuExpansion m xs n))) \<Longrightarrow>
     n \<le> mi_ref y \<and> mi_ref y < snd (updateMenuExpansion m xs n)"
proof (induction m x n and m xs n arbitrary: y and y rule: updateMenuItem_updateMenuExpansion.induct)
  case (1 menuId r i l expanded n)
  then show ?case by simp
next
  case (2 menuId r i l expanded items n)
  obtain ys n' where u: "updateMenuExpansion menuId items n = (ys, n')"
    by (cases "updateMenuExpansion menuId items n")
  have le: "n \<le> n'" using counter_mono(2)[of n menuId items] u by simp
  from "2.prems" u have "y = MenuItem n' i l (if i = menuId then Some (negate expanded) else expanded) (Some ys)
      \<or> y \<in> set (flattens ys)"
    by (simp add: Let_def)
  then show ?case
  proof
    assume "y = MenuItem n' i l (if i = menuId then Some (negate expanded) else expanded) (Some ys)"
    then show ?thesis using u le by (simp add: Let_def)
  next
    assume "y \<in> set (flattens ys)"
    then have "n \<le> mi_ref y \<and> mi_ref y < n'" using "2.IH"[of _ y] u by simp
    then show ?thesis using u by (simp add: Let_def)
  qed
next
  case (3 menuId n)
  then show ?case by simp
next
  case (4 menuId menuItem rest n)
  obtain z n' where a: "updateMenuItem menuId menuItem n = (z, n')"
    by (cases "updateMenuItem menuId menuItem n")
  obtain zs n'' where b: "updateMenuExpansion menuId rest n' = (zs, n'')"
    by (cases "updateMenuExpansion menuId rest n'")
  have le1: "n \<le> n'" using counter_mono(1)[of n menuId menuItem] a by simp
  have le2: "n' \<le> n''" using counter_mono(2)[of n' menuId rest] b by simp
  from "4.prems" a b have "y \<in> set (flatten z) \<or> y \<in> set (flattens zs)"
    by (simp add: Let_def)
  then show ?case
  proof
    assume "y \<in> set (flatten z)"
    then have "n \<le> mi_ref y \<and> mi_ref y < n'" using "4.IH"(1)[of y] a by simp
    then show ?thesis using a b le2 by (simp add: Let_def)
  next
    assume "y \<in> set (flattens zs)"
    then have "n' \<le> mi_ref y \<and> mi_ref y < n''" using "4.IH"(2)[OF a[symmetric] refl, of y] b by simp
    then show ?thesis using a b le1 by (simp add: Let_def)
  qed
qed

lemma same_ids:
  "map mi_id (flatten (fst (updateMenuItem m x n))) = map mi_id (flatten x)"
  "map mi_id (flattens (fst (updateMenuExpansion m xs n))) = map mi_id (flattens xs)"
  by (induction m x n and m xs n rule: updateMenuItem_updateMenuExpansion.induct)
     (auto simp: Let_def split: prod.splits)

lemma same_labels:
  "map mi_label (flatten (fst (updateMenuItem m x n))) = map mi_label (flatten x)"
  "map mi_label (flattens (fst (updateMenuExpansion m xs n))) = map mi_label (flattens xs)"
  by (induction m x n and m xs n rule: updateMenuItem_updateMenuExpansion.induct)
     (auto simp: Let_def split: prod.splits)

lemma same_length:
  "length (fst (updateMenuExpansion m xs n)) = length xs"
proof (induction xs arbitrary: n)
  case (Cons a xs)
  obtain z n' where a: "updateMenuItem m a n = (z, n')"
    by (cases "updateMenuItem m a n")
  show ?case using Cons[of n'] a by (auto simp: Let_def split: prod.splits)
qed simp

lemma same_arity:
  "map (map_option length \<circ> mi_items) (flatten (fst (updateMenuItem m x n)))
     = map (map_option length \<circ> mi_items) (flatten x)"
  "map (map_option length \<circ> mi_items) (flattens (fst (updateMenuExpansion m xs n)))
     = map (map_option length \<circ> mi_items) (flattens xs)"
proof (induction m x n and m xs n rule: updateMenuItem_updateMenuExpansion.induct)
  case (2 menuId r i l expanded items n)
  then show ?case using same_length[of menuId items n]
    by (auto simp: Let_def split: prod.splits)
qed (auto simp: Let_def split: prod.splits)

lemma flipped:
  "map mi_expanded (flatten (fst (updateMenuItem m x n)))
     = map (\<lambda>x. if mi_id x = m then Some (negate (mi_expanded x)) else mi_expanded x) (flatten x)"
  "map mi_expanded (flattens (fst (updateMenuExpansion m xs n)))
     = map (\<lambda>x. if mi_id x = m then Some (negate (mi_expanded x)) else mi_expanded x) (flattens xs)"
  by (induction m x n and m xs n rule: updateMenuItem_updateMenuExpansion.induct)
     (auto simp: Let_def split: prod.splits)

text \<open>
  C10, as amended. \<open>toggleMenuExpansion(id)\<close> hands the menu tree to
  \<open>updateMenuExpansion\<close>. At every depth the items with the given id have their
  \<open>expanded\<close> flag negated and every other item keeps its flag; ids, labels and the
  shape of the tree are kept. No object identity is retained: every item object of the
  result is a new object, siblings and unrelated subtrees included.
\<close>

theorem updateMenuExpansion_rebuilds_tree:
  assumes "\<forall>x \<in> set (flattens menuItems). mi_ref x < n"
  shows "map mi_expanded (flattens (fst (updateMenuExpansion menuId menuItems n))) =
           map (\<lambda>x. if mi_id x = menuId then Some (negate (mi_expanded x)) else mi_expanded x)
               (flattens menuItems) \<and>
         map mi_id (flattens (fst (updateMenuExpansion menuId menuItems n))) =
           map mi_id (flattens menuItems) \<and>
         map mi_label (flattens (fst (updateMenuExpansion menuId menuItems n))) =
           map mi_label (flattens menuItems) \<and>
         map (map_option length \<circ> mi_items) (flattens (fst (updateMenuExpansion menuId menuItems n))) =
           map (map_option length \<circ> mi_items) (flattens menuItems) \<and>
         length (fst (updateMenuExpansion menuId menuItems n)) = length menuItems \<and>
         (\<forall>y \<in> set (flattens (fst (updateMenuExpansion menuId menuItems n))).
            \<forall>x \<in> set (flattens menuItems). mi_ref y \<noteq> mi_ref x)"
proof -
  have "mi_ref y \<noteq> mi_ref x"
    if "y \<in> set (flattens (fst (updateMenuExpansion menuId menuItems n)))"
      and "x \<in> set (flattens menuItems)" for x y
  proof -
    have "n \<le> mi_ref y" using fresh_refs(2)[OF that(1)] by simp
    moreover have "mi_ref x < n" using assms that(2) by blast
    ultimately show ?thesis by simp
  qed
  then show ?thesis
    using flipped(2)[of menuId menuItems n] same_ids(2)[of menuId menuItems n]
      same_labels(2)[of menuId menuItems n] same_arity(2)[of menuId menuItems n]
      same_length[of menuId menuItems n]
    by blast
qed

text \<open>
  The tree \<open>[{id:1, expanded:false, items:[{id:2, expanded:false}]}]\<close> with id 2
  toggled.
\<close>

theorem updateMenuExpansion_rebuilds_tree_witness:
  "map mi_ref (flattens [MenuItem 0 1 ''Users'' (Some False)
                          (Some [MenuItem 1 2 ''Create'' (Some False) None])]) = [0, 1] \<and>
   fst (updateMenuExpansion 2
          [MenuItem 0 1 ''Users'' (Some False) (Some [MenuItem 1 2 ''Create'' (Some False) None])] 2) =
     [MenuItem 3 1 ''Users'' (Some False) (Some [MenuItem 2 2 ''Create'' (Some True) None])] \<and>
   map mi_expanded (flattens (fst (updateMenuExpansion 2
          [MenuItem 0 1 ''Users'' (Some False) (Some [MenuItem 1 2 ''Create'' (Some False) None])] 2))) =
     [Some False, Some True] \<and>
   map mi_ref (flattens (fst (updateMenuExpansion 2
          [MenuItem 0 1 ''Users'' (Some False) (Some [MenuItem 1 2 ''Create'' (Some False) None])] 2))) =
     [3, 2]"
proof -
  have fresh: "\<forall>x \<in> set (flattens [MenuItem 0 1 ''Users'' (Some False)
                          (Some [MenuItem 1 2 ''Create'' (Some False) None])]). mi_ref x < 2"
    by simp
  show ?thesis
    using updateMenuExpansion_rebuilds_tree[OF fresh, of 2]
    by simp
qed

text \<open>
  C10 as stated fails: with two top-level items and the first one toggled, the
  untouched sibling with id 2 comes back as another object.
\<close>

theorem updateMenuExpansion_sibling_identity_counterexample:
  "mi_id (fst (updateMenuExpansion 1
       [MenuItem 0 1 ''Users'' (Some False) None, MenuItem 1 2 ''Roles'' (Some False) None] 2) ! 1) = 2 \<and>
   mi_ref (fst (updateMenuExpansion 1
       [MenuItem 0 1 ''Users'' (Some False) None, MenuItem 1 2 ''Roles'' (Some False) None] 2) ! 1)
     \<noteq> mi_ref (MenuItem 1 2 ''Roles'' (Some False) None)"
  by simp

subsection \<open>Reset state\<close>

lemma patches_keys:
  "k \<in> set (keys (rs_state (patches calls store))) \<longleftrightarrow> k \<in> set (keys (rs_state store))"
proof -
  have "k \<in> set (keys (rs_state
          (foldl (\<lambda>st updaters. st\<lparr>rs_state := patchState (rs_state st) updaters\<rparr>) st calls)))
        \<longleftrightarrow> k \<in> set (keys (rs_state st))" for st
    by (induction calls arbitrary: st) (simp_all add: keys_patchState)
  then show ?thesis by (simp add: patches_def)
qed

lemma patches_initialState: "rs_initialState (patches calls store) = rs_initialState store"
proof -
  have "rs_initialState (foldl (\<lambda>st updaters. st\<lparr>rs_state := patchState (rs_state st) updaters\<rparr>) st calls)
          = rs_initialState st" for st
    by (induction calls arbitrary: st) simp_all
  then show ?thesis by (simp add: patches_def)
qed

text \<open>
  C6, as amended. After the state \<open>S0\<close> is captured at initialization and any sequence
  of patches is applied, \<open>resetState()\<close> without an argument gives every field of
  \<open>S0\<close> its value in \<open>S0\<close> again, whether or not its name starts with an
  underscore; a field that \<open>S0\<close> does not hold is left as it is.
\<close>

theorem resetState_restores_captured_fields:
  "map_of (rs_state (resetState None (patches calls (onInit_reset (newResetStore S0))))) k =
     (if k \<in> set (keys S0) then map_of S0 k
      else map_of (rs_state (patches calls (onInit_reset (newResetStore S0)))) k)"
proof -
  let ?st = "patches calls (onInit_reset (newResetStore S0))"
  have i: "rs_initialState ?st = S0"
    by (simp add: patches_initialState onInit_reset_def setInitialState_def getStateSource_def
          newResetStore_def)
  have "k \<in> set (keys (rs_state ?st)) \<longleftrightarrow> k \<in> set (keys S0)"
    by (simp add: patches_keys onInit_reset_def setInitialState_def newResetStore_def)
  then show ?thesis
    by (auto simp: resetState_def i map_of_patchState_partial keys_iff)
qed

text \<open>
  C6 as stated fails: the internal field \<open>_menuItems\<close> is patched after
  initialization, and the reset writes its initial value back.
\<close>

theorem resetState_internal_field_counterexample:
  "internal ''_menuItems'' \<and>
   map_of (rs_state (patches [[Partial [(''_menuItems'', JArr [JNum 7])]]]
             (onInit_reset (newResetStore [(''title'', JStr ''Home''), (''_menuItems'', JArr [])]))))
      ''_menuItems'' = Some (JArr [JNum 7]) \<and>
   map_of (rs_state (resetState None (patches [[Partial [(''_menuItems'', JArr [JNum 7])]]]
             (onInit_reset (newResetStore [(''title'', JStr ''Home''), (''_menuItems'', JArr [])])))))
      ''_menuItems'' = Some (JArr [])"
  by (simp add: resetState_def patchState_def patches_def onInit_reset_def setInitialState_def
        getStateSource_def newResetStore_def spread_def assign_def pick_def keys_def)

subsection \<open>Request status\<close>

lemma scheduleReset_unsettled: "\<not> settled (snd entry) \<Longrightarrow> scheduleReset entry store = store"
  by (cases entry) (simp add: scheduleReset_def settled_def)

lemma scheduleReset_settled:
  "settled request \<Longrightarrow>
   scheduleReset (event, request) store =
     (case map_of (eventTimeouts store) event of
        Some t \<Rightarrow>
          store\<lparr>timers := filter (\<lambda>(i, due, ev). i \<noteq> t) (timers store)
                            @ [(nextTimer store, now store + timeoutDelay (resetDelay store), event)],
                nextTimer := Suc (nextTimer store),
                eventTimeouts := assign event (nextTimer store) (eventTimeouts store)\<rparr>
      | None \<Rightarrow>
          store\<lparr>timers := timers store
                            @ [(nextTimer store, now store + timeoutDelay (resetDelay store), event)],
                nextTimer := Suc (nextTimer store),
                eventTimeouts := assign event (nextTimer store) (eventTimeouts store)\<rparr>)"
  by (simp add: scheduleReset_def settled_def setTimeout_def clearTimeout_def Let_def
        split: option.splits)

lemma scheduleReset_frame:
  "requests (scheduleReset entry store) = requests store"
  "hostState (scheduleReset entry store) = hostState store"
  "now (scheduleReset entry store) = now store"
  "resetDelay (scheduleReset entry store) = resetDelay store"
  by (cases entry; cases "settled (snd entry)";
      simp add: scheduleReset_settled scheduleReset_unsettled split: option.splits)+

lemma fold_scheduleReset_frame:
  "requests (fold scheduleReset entries store) = requests store"
  "hostState (fold scheduleReset entries store) = hostState store"
  "now (fold scheduleReset entries store) = now store"
  "resetDelay (fold scheduleReset entries store) = resetDelay store"
  by (induction entries arbitrary: store; simp add: scheduleReset_frame)+

lemma statusEffect_frame:
  "requests (statusEffect store) = requests store"
  "hostState (statusEffect store) = hostState store"
  "now (statusEffect store) = now store"
  "resetDelay (statusEffect store) = resetDelay store"
  by (simp_all add: statusEffect_def fold_scheduleReset_frame)

lemma distinct_assign: "distinct (keys obj) \<Longrightarrow> distinct (keys (assign k v obj))"
  by (simp add: keys_def assign_def distinct_update)

lemma set_assign: "set (assign k v obj) \<subseteq> insert (k, v) (set obj)"
  by (induction obj) (auto simp: assign_def)

lemma assign_mem: "(k, v) \<in> set (assign k v obj)"
  by (induction obj) (auto simp: assign_def)

lemma resolved_message:
  "(if truthy (case m of JNull \<Rightarrow> JStr [] | v \<Rightarrow> v) then (case m of JNull \<Rightarrow> JStr [] | v \<Rightarrow> v)
    else JNull) = (if truthy m then m else JNull)"
  by (cases m) simp_all

lemma optional_literal:
  "optional (Some [(''data'', d), (''message'', m)]) ''message'' = m"
  "optional (Some [(''data'', d), (''message'', m)]) ''data'' = d"
  by (simp_all add: optional_def)

lemma statusUpdater_eq:
  "(if status = Fulfilled
    then setFulfilled event
           (Some [(''data'', optional obj ''data''),
                  (''message'', case optional obj ''message'' of JNull \<Rightarrow> JStr [] | m \<Rightarrow> m)])
    else setRejected event
           (Some [(''data'', optional obj ''data''),
                  (''message'', case optional obj ''message'' of JNull \<Rightarrow> JStr [] | m \<Rightarrow> m)]))
     R = assign event (resolvedEntity status obj) R"
  by (cases "optional obj ''message''")
     (simp_all add: setFulfilled_def setRejected_def resolvedEntity_def optional_literal)

text \<open>The patch that \<open>markResolved\<close> makes, before the effect runs.\<close>

lemma markResolved_eq:
  "markResolved event status result store =
     statusEffect
       (store\<lparr>requests :=
                (case payload_requests (pickPayload result (keys (hostState store) @ [''requests''])) of
                   Some slice \<Rightarrow> slice
                 | None \<Rightarrow>
                     assign event (resolvedEntity status (map_option payload_fields result))
                       (requests store)),
              hostState :=
                patchState (hostState store)
                  [Partial (payload_fields
                     (pickPayload result (keys (hostState store) @ [''requests''])))]\<rparr>)"
  unfolding markResolved_def Let_def statusUpdater_eq ..

lemma pickPayload_requests:
  "payload_requests (pickPayload result (ks @ [''requests''])) =
     (case result of None \<Rightarrow> None | Some r \<Rightarrow> payload_requests r)"
  by (simp add: pickPayload_def split: option.splits)

lemma settled_resolvedEntity: "settled (resolvedEntity status result)"
  by (simp add: settled_def resolvedEntity_def)

lemma markResolved_frame:
  "now (markResolved event status result store) = now store"
  "resetDelay (markResolved event status result store) = resetDelay store"
  by (simp_all add: markResolved_eq statusEffect_frame)

lemma markResolved_requests:
  "requests (markResolved event status result store) =
     (case (case result of None \<Rightarrow> None | Some r \<Rightarrow> payload_requests r) of
        Some slice \<Rightarrow> slice
      | None \<Rightarrow>
          assign event (resolvedEntity status (map_option payload_fields result)) (requests store))"
  by (simp add: markResolved_eq statusEffect_frame pickPayload_requests)

lemma markPending_frame:
  "now (markPending event store) = now store"
  "resetDelay (markPending event store) = resetDelay store"
  "hostState (markPending event store) = hostState store"
  "requests (markPending event store) = setPending event (requests store)"
  by (simp_all add: markPending_def statusEffect_frame)

text \<open>The effect keeps a store tracked.\<close>

lemma scheduleReset_ids:
  assumes "\<forall>entry \<in> set (eventTimeouts store). snd entry < nextTimer store"
  shows "\<forall>entry \<in> set (eventTimeouts (scheduleReset e store)).
           snd entry < nextTimer (scheduleReset e store)"
proof (cases "settled (snd e)")
  case False
  then show ?thesis using assms by (simp add: scheduleReset_unsettled)
next
  case True
  obtain event request where e: "e = (event, request)" by (cases e)
  have s: "settled request" using True e by simp
  have "snd entry < Suc (nextTimer store)"
    if "entry \<in> set (assign event (nextTimer store) (eventTimeouts store))" for entry
  proof -
    have "entry = (event, nextTimer store) \<or> entry \<in> set (eventTimeouts store)"
      using that set_assign[of event "nextTimer store" "eventTimeouts store"] by auto
    then show ?thesis using assms by auto
  qed
  then show ?thesis
    unfolding e scheduleReset_settled[OF s] by (simp split: option.splits)
qed

lemma scheduleReset_recorded:
  assumes "\<forall>timer \<in> set (timers store).
             map_of (eventTimeouts store) (snd (snd timer)) = Some (fst timer)"
  shows "\<forall>timer \<in> set (timers (scheduleReset e store)).
           map_of (eventTimeouts (scheduleReset e store)) (snd (snd timer)) = Some (fst timer)"
proof (cases "settled (snd e)")
  case False
  then show ?thesis using assms by (simp add: scheduleReset_unsettled)
next
  case True
  obtain event request where e: "e = (event, request)" by (cases e)
  have s: "settled request" using True e by simp
  show ?thesis
  proof (cases "map_of (eventTimeouts store) event")
    case None
    have "snd (snd timer) \<noteq> event" if "timer \<in> set (timers store)" for timer
      using assms that None by auto
    then show ?thesis
      unfolding e scheduleReset_settled[OF s] using assms None
      by (auto simp: map_of_assign)
  next
    case (Some t0)
    have "snd (snd timer) \<noteq> event"
      if "timer \<in> set (timers store)" "fst timer \<noteq> t0" for timer
      using assms that Some by auto
    then show ?thesis
      unfolding e scheduleReset_settled[OF s] using assms Some
      by (auto simp: map_of_assign)
  qed
qed

lemma fold_scheduleReset_ids:
  "\<forall>entry \<in> set (eventTimeouts store). snd entry < nextTimer store \<Longrightarrow>
   \<forall>entry \<in> set (eventTimeouts (fold scheduleReset entries store)).
     snd entry < nextTimer (fold scheduleReset entries store)"
proof (induction entries arbitrary: store)
  case Nil
  then show ?case by simp
next
  case (Cons e entries)
  show ?case using Cons.IH[OF scheduleReset_ids[OF Cons.prems]] by simp
qed

lemma fold_scheduleReset_recorded:
  "\<forall>timer \<in> set (timers store).
     map_of (eventTimeouts store) (snd (snd timer)) = Some (fst timer) \<Longrightarrow>
   \<forall>timer \<in> set (timers (fold scheduleReset entries store)).
     map_of (eventTimeouts (fold scheduleReset entries store)) (snd (snd timer)) = Some (fst timer)"
proof (induction entries arbitrary: store)
  case Nil
  then show ?case by simp
next
  case (Cons e entries)
  show ?case using Cons.IH[OF scheduleReset_recorded[OF Cons.prems]] by simp
qed

lemma statusEffect_tracked: "tracked store \<Longrightarrow> tracked (statusEffect store)"
  unfolding tracked_def statusEffect_def
  using fold_scheduleReset_ids[of store "requests store"]
    fold_scheduleReset_recorded[of store "requests store"]
  by (simp add: fold_scheduleReset_frame)

text \<open>The timers that the effect sets belong to settled events.\<close>

lemma map_of_member: "distinct (keys obj) \<Longrightarrow> (k, v) \<in> set obj \<Longrightarrow> map_of obj k = Some v"
  by (simp add: keys_def)

lemma scheduleReset_settledTimers:
  assumes "distinct (keys (requests store))" "e \<in> set (requests store)"
    "settledTimers event store"
  shows "settledTimers event (scheduleReset e store)"
proof (cases "settled (snd e)")
  case False
  then show ?thesis using assms by (simp add: scheduleReset_unsettled)
next
  case True
  obtain ev request where e: "e = (ev, request)" by (cases e)
  have s: "settled request" using True e by simp
  have m: "map_of (requests store) ev = Some request"
    using map_of_member[OF assms(1)] assms(2) e by simp
  show ?thesis
    using assms(3) m s
    unfolding e scheduleReset_settled[OF s] settledTimers_def
    by (auto split: option.splits)
qed

lemma fold_scheduleReset_settledTimers:
  "distinct (keys (requests store)) \<Longrightarrow> set entries \<subseteq> set (requests store) \<Longrightarrow>
   settledTimers event store \<Longrightarrow> settledTimers event (fold scheduleReset entries store)"
proof (induction entries arbitrary: store)
  case Nil
  then show ?case by simp
next
  case (Cons e entries)
  have "settledTimers event (scheduleReset e store)"
    using scheduleReset_settledTimers[OF Cons.prems(1) _ Cons.prems(3), of e] Cons.prems(2)
    by simp
  then show ?case
    using Cons.IH[of "scheduleReset e store"] Cons.prems(1,2)
    by (simp add: scheduleReset_frame)
qed

lemma statusEffect_settledTimers:
  "distinct (keys (requests store)) \<Longrightarrow> settledTimers event store \<Longrightarrow>
   settledTimers event (statusEffect store)"
  unfolding statusEffect_def
  using fold_scheduleReset_settledTimers[of store "requests store" event] by simp

text \<open>
  When every pending timer is the recorded one of a settled event, the effect
  replaces them all: afterwards every pending timer is due one delay from now, and
  every settled event has one.
\<close>

lemma fold_scheduleReset_due:
  assumes "\<forall>timer \<in> set (timers store).
             fst (snd timer) = now store + timeoutDelay (resetDelay store) \<or>
             ((\<exists>request. (snd (snd timer), request) \<in> set entries \<and> settled request) \<and>
              map_of (eventTimeouts store) (snd (snd timer)) = Some (fst timer))"
  shows "\<forall>timer \<in> set (timers (fold scheduleReset entries store)).
           fst (snd timer) = now store + timeoutDelay (resetDelay store)"
  using assms
proof (induction entries arbitrary: store)
  case Nil
  then show ?case by simp
next
  case (Cons e entries)
  let ?D = "now store + timeoutDelay (resetDelay store)"
  let ?s = "scheduleReset e store"
  obtain ev request where e: "e = (ev, request)" by (cases e)
  have step: "\<forall>timer \<in> set (timers ?s).
             fst (snd timer) = ?D \<or>
             ((\<exists>request. (snd (snd timer), request) \<in> set entries \<and> settled request) \<and>
              map_of (eventTimeouts ?s) (snd (snd timer)) = Some (fst timer))"
  proof (cases "settled request")
    case False
    then have "?s = store" using e by (simp add: scheduleReset_unsettled)
    moreover have "(\<exists>r. (k, r) \<in> set (e # entries) \<and> settled r) \<longrightarrow>
        (\<exists>r. (k, r) \<in> set entries \<and> settled r)" for k
      using False e by auto
    ultimately show ?thesis using Cons.prems by fastforce
  next
    case True
    show ?thesis
    proof
      fix timer assume t: "timer \<in> set (timers ?s)"
      show "fst (snd timer) = ?D \<or>
             ((\<exists>request. (snd (snd timer), request) \<in> set entries \<and> settled request) \<and>
              map_of (eventTimeouts ?s) (snd (snd timer)) = Some (fst timer))"
      proof (cases "timer = (nextTimer store, ?D, ev)")
        case True
        then show ?thesis by simp
      next
        case new: False
        have old: "timer \<in> set (timers store)"
          and kept: "map_of (eventTimeouts store) ev \<noteq> Some (fst timer)"
          using t new unfolding e scheduleReset_settled[OF True]
          by (auto split: option.splits)
        from Cons.prems old have "fst (snd timer) = ?D \<or>
             ((\<exists>request. (snd (snd timer), request) \<in> set (e # entries) \<and> settled request) \<and>
              map_of (eventTimeouts store) (snd (snd timer)) = Some (fst timer))"
          by blast
        then show ?thesis
        proof
          assume "fst (snd timer) = ?D"
          then show ?thesis by simp
        next
          assume a: "(\<exists>request. (snd (snd timer), request) \<in> set (e # entries) \<and> settled request) \<and>
              map_of (eventTimeouts store) (snd (snd timer)) = Some (fst timer)"
          then have ne: "snd (snd timer) \<noteq> ev" using kept by auto
          then have "\<exists>request. (snd (snd timer), request) \<in> set entries \<and> settled request"
            using a e by auto
          moreover have "map_of (eventTimeouts ?s) (snd (snd timer)) = Some (fst timer)"
            using a ne unfolding e scheduleReset_settled[OF True]
            by (auto simp: map_of_assign split: option.splits)
          ultimately show ?thesis by simp
        qed
      qed
    qed
  qed
  show ?case
    using Cons.IH[of ?s] step by (simp add: scheduleReset_frame)
qed

lemma fold_scheduleReset_survives:
  assumes "timer \<in> set (timers store)"
    and "\<forall>entry \<in> set entries. map_of (eventTimeouts store) (fst entry) \<noteq> Some (fst timer)"
    and "distinct (map fst entries)"
  shows "timer \<in> set (timers (fold scheduleReset entries store))"
  using assms
proof (induction entries arbitrary: store)
  case Nil
  then show ?case by simp
next
  case (Cons e entries)
  let ?s = "scheduleReset e store"
  obtain ev request where e: "e = (ev, request)" by (cases e)
  have others: "fst entry \<noteq> ev" if "entry \<in> set entries" for entry
    using Cons.prems(3) that e by auto
  have here: "timer \<in> set (timers ?s)"
  proof (cases "settled request")
    case False
    then show ?thesis using Cons.prems(1) e by (simp add: scheduleReset_unsettled)
  next
    case True
    have "map_of (eventTimeouts store) ev \<noteq> Some (fst timer)"
      using Cons.prems(2) e by simp
    then show ?thesis
      using Cons.prems(1) unfolding e scheduleReset_settled[OF True]
      by (cases timer) (auto split: option.splits)
  qed
  have later: "\<forall>entry \<in> set entries. map_of (eventTimeouts ?s) (fst entry) \<noteq> Some (fst timer)"
  proof (cases "settled request")
    case False
    then show ?thesis using Cons.prems(2) e by (simp add: scheduleReset_unsettled)
  next
    case True
    show ?thesis
      using Cons.prems(2) others unfolding e scheduleReset_settled[OF True]
      by (auto simp: map_of_assign split: option.splits)
  qed
  show ?case using Cons.IH[OF here later] Cons.prems(3) by simp
qed

lemma fold_scheduleReset_arms:
  assumes "distinct (map fst entries)"
    and "\<forall>entry \<in> set (eventTimeouts store). snd entry < nextTimer store"
    and "(event, request) \<in> set entries" and "settled request"
  shows "\<exists>t. (t, now store + timeoutDelay (resetDelay store), event)
               \<in> set (timers (fold scheduleReset entries store))"
  using assms
proof (induction entries arbitrary: store)
  case Nil
  then show ?case by simp
next
  case (Cons e entries)
  let ?D = "now store + timeoutDelay (resetDelay store)"
  let ?s = "scheduleReset e store"
  show ?case
  proof (cases "e = (event, request)")
    case True
    have new: "(nextTimer store, ?D, event) \<in> set (timers ?s)"
      unfolding True scheduleReset_settled[OF Cons.prems(4)] by (simp split: option.splits)
    have others: "fst entry \<noteq> event" if "entry \<in> set entries" for entry
      using Cons.prems(1) that True by auto
    have "map_of (eventTimeouts ?s) (fst entry) \<noteq> Some (nextTimer store)"
      if "entry \<in> set entries" for entry
    proof
      assume a: "map_of (eventTimeouts ?s) (fst entry) = Some (nextTimer store)"
      have "map_of (eventTimeouts store) (fst entry) = Some (nextTimer store)"
        using a others[OF that] unfolding True scheduleReset_settled[OF Cons.prems(4)]
        by (auto simp: map_of_assign split: option.splits)
      then have "(fst entry, nextTimer store) \<in> set (eventTimeouts store)"
        by (rule map_of_SomeD)
      then show False using Cons.prems(2) by auto
    qed
    then have "(nextTimer store, ?D, event) \<in> set (timers (fold scheduleReset entries ?s))"
      using fold_scheduleReset_survives[OF new, of entries] Cons.prems(1) by simp
    then show ?thesis by auto
  next
    case False
    then have mem: "(event, request) \<in> set entries" using Cons.prems(3) by simp
    have "\<exists>t. (t, now ?s + timeoutDelay (resetDelay ?s), event)
               \<in> set (timers (fold scheduleReset entries ?s))"
      using Cons.IH[OF _ scheduleReset_ids[OF Cons.prems(2)] mem Cons.prems(4)] Cons.prems(1)
      by simp
    then show ?thesis by (simp add: scheduleReset_frame)
  qed
qed

lemma statusEffect_arms:
  assumes "tracked store"
    and "\<forall>timer \<in> set (timers store).
           (case map_of (requests store) (snd (snd timer)) of
              Some request \<Rightarrow> settled request | None \<Rightarrow> False)"
  shows "\<forall>timer \<in> set (timers (statusEffect store)).
           fst (snd timer) = now store + timeoutDelay (resetDelay store)"
    and "(event, request) \<in> set (requests store) \<Longrightarrow> settled request \<Longrightarrow>
         \<exists>t. (t, now store + timeoutDelay (resetDelay store), event)
               \<in> set (timers (statusEffect store))"
proof -
  have d: "distinct (map fst (requests store))"
    and i: "\<forall>entry \<in> set (eventTimeouts store). snd entry < nextTimer store"
    and r: "\<forall>timer \<in> set (timers store).
         map_of (eventTimeouts store) (snd (snd timer)) = Some (fst timer)"
    using assms(1) by (simp_all add: tracked_def keys_def)
  have "\<exists>request. (snd (snd timer), request) \<in> set (requests store) \<and> settled request"
    if "timer \<in> set (timers store)" for timer
  proof -
    from assms(2) that obtain q where "map_of (requests store) (snd (snd timer)) = Some q"
      "settled q" by (auto split: option.splits)
    then show ?thesis using map_of_SomeD by fast
  qed
  then show "\<forall>timer \<in> set (timers (statusEffect store)).
           fst (snd timer) = now store + timeoutDelay (resetDelay store)"
    unfolding statusEffect_def
    using r by (intro fold_scheduleReset_due) blast
  show "\<exists>t. (t, now store + timeoutDelay (resetDelay store), event)
               \<in> set (timers (statusEffect store))"
    if "(event, request) \<in> set (requests store)" "settled request"
    unfolding statusEffect_def
    using fold_scheduleReset_arms[OF d i that] .
qed

text \<open>The timers at work.\<close>

lemma fold_fire_frame:
  "timers (fold fire ts store) = timers store"
  "eventTimeouts (fold fire ts store) = eventTimeouts store"
  "nextTimer (fold fire ts store) = nextTimer store"
  "now (fold fire ts store) = now store"
  "resetDelay (fold fire ts store) = resetDelay store"
  "hostState (fold fire ts store) = hostState store"
  by (induction ts arbitrary: store; simp add: fire_def split: prod.splits)+

lemma fold_fire_distinct:
  "distinct (keys (requests store)) \<Longrightarrow> distinct (keys (requests (fold fire ts store)))"
  by (induction ts arbitrary: store)
     (auto simp: fire_def setIdle_def distinct_assign split: prod.splits)

lemma fold_fire_keeps_idle:
  "map_of (requests store) event =
     Some \<lparr>entity_status = Idle, entity_message = JNull, entity_data = None\<rparr> \<Longrightarrow>
   map_of (requests (fold fire ts store)) event =
     Some \<lparr>entity_status = Idle, entity_message = JNull, entity_data = None\<rparr>"
  by (induction ts arbitrary: store)
     (auto simp: fire_def setIdle_def map_of_assign split: prod.splits)

lemma fold_fire_idle:
  "(t, due, event) \<in> set ts \<Longrightarrow>
   map_of (requests (fold fire ts store)) event =
     Some \<lparr>entity_status = Idle, entity_message = JNull, entity_data = None\<rparr>"
proof (induction ts arbitrary: store)
  case Nil
  then show ?case by simp
next
  case (Cons x ts)
  show ?case
  proof (cases "x = (t, due, event)")
    case True
    have "map_of (requests (fire x store)) event =
        Some \<lparr>entity_status = Idle, entity_message = JNull, entity_data = None\<rparr>"
      using True by (simp add: fire_def setIdle_def map_of_assign)
    then show ?thesis using fold_fire_keeps_idle[of "fire x store" event ts] by simp
  next
    case False
    then show ?thesis using Cons by simp
  qed
qed

lemma runTimers_keeps_idle:
  assumes "map_of (requests store) event =
     Some \<lparr>entity_status = Idle, entity_message = JNull, entity_data = None\<rparr>"
  shows "map_of (requests (runTimers store)) event =
     Some \<lparr>entity_status = Idle, entity_message = JNull, entity_data = None\<rparr>"
proof -
  have "map_of (requests (fold fire ts (store\<lparr>timers := w\<rparr>))) event =
     Some \<lparr>entity_status = Idle, entity_message = JNull, entity_data = None\<rparr>" for ts w
    using fold_fire_keeps_idle[of "store\<lparr>timers := w\<rparr>" event ts] assms by simp
  then show ?thesis using assms
    by (simp add: runTimers_def Let_def statusEffect_frame)
qed

lemma elapse_keeps_idle:
  "map_of (requests store) event =
     Some \<lparr>entity_status = Idle, entity_message = JNull, entity_data = None\<rparr> \<Longrightarrow>
   map_of (requests (elapse ms store)) event =
     Some \<lparr>entity_status = Idle, entity_message = JNull, entity_data = None\<rparr>"
proof (induction ms arbitrary: store)
  case 0
  then show ?case by (simp add: runTimers_keeps_idle)
next
  case (Suc ms)
  have "map_of (requests ((runTimers store)\<lparr>now := Suc (now (runTimers store))\<rparr>)) event =
     Some \<lparr>entity_status = Idle, entity_message = JNull, entity_data = None\<rparr>"
    using runTimers_keeps_idle[OF Suc.prems] by simp
  then show ?case using Suc.IH by simp
qed

lemma runTimers_waiting:
  "\<forall>timer \<in> set (timers store). now store < fst (snd timer) \<Longrightarrow> runTimers store = store"
proof -
  assume a: "\<forall>timer \<in> set (timers store). now store < fst (snd timer)"
  have "filter (\<lambda>(t, due, ev). due \<le> now store) (timers store) = []"
    using a by (auto simp: filter_empty_conv)
  then show ?thesis by (simp add: runTimers_def)
qed

lemma runTimers_due:
  assumes "\<forall>timer \<in> set (timers store). fst (snd timer) \<le> now store"
    and "(t, due, event) \<in> set (timers store)"
  shows "map_of (requests (runTimers store)) event =
     Some \<lparr>entity_status = Idle, entity_message = JNull, entity_data = None\<rparr>"
proof -
  have f: "filter (\<lambda>(t, due, ev). due \<le> now store) (timers store) = timers store"
    using assms(1) by (auto simp: filter_id_conv)
  have n: "timers store \<noteq> []" using assms(2) by auto
  show ?thesis
    using fold_fire_idle[OF assms(2)] f n
    by (simp add: runTimers_def Let_def statusEffect_frame)
qed

text \<open>
  When every pending timer is due at the same time and the event has one, the event
  is idle from that time on.
\<close>

lemma elapse_resets:
  assumes "\<forall>timer \<in> set (timers store). fst (snd timer) = due"
    and "(t, due, event) \<in> set (timers store)"
    and "due \<le> now store + ms"
  shows "map_of (requests (elapse ms store)) event =
     Some \<lparr>entity_status = Idle, entity_message = JNull, entity_data = None\<rparr>"
  using assms
proof (induction ms arbitrary: store)
  case 0
  show ?case using runTimers_due[of store t due event] "0.prems" by simp
next
  case (Suc ms)
  show ?case
  proof (cases "due \<le> now store")
    case True
    have "map_of (requests (runTimers store)) event =
        Some \<lparr>entity_status = Idle, entity_message = JNull, entity_data = None\<rparr>"
      using runTimers_due[of store t due event] Suc.prems True by simp
    then have "map_of (requests ((runTimers store)\<lparr>now := Suc (now (runTimers store))\<rparr>)) event =
        Some \<lparr>entity_status = Idle, entity_message = JNull, entity_data = None\<rparr>"
      by simp
    then show ?thesis using elapse_keeps_idle by simp
  next
    case False
    then have r: "runTimers store = store"
      using Suc.prems(1) by (intro runTimers_waiting) auto
    show ?thesis
      using Suc.IH[of "store\<lparr>now := Suc (now store)\<rparr>"] Suc.prems
      by (simp add: r)
  qed
qed

text \<open>Before that time nothing happens.\<close>

lemma elapse_waits:
  assumes "\<forall>timer \<in> set (timers store). fst (snd timer) = due"
    and "now store + ms < due"
  shows "elapse ms store = store\<lparr>now := now store + ms\<rparr>"
  using assms
proof (induction ms arbitrary: store)
  case 0
  then show ?case by (simp add: runTimers_waiting)
next
  case (Suc ms)
  have r: "runTimers store = store"
    using Suc.prems by (intro runTimers_waiting) auto
  show ?case
    using Suc.IH[of "store\<lparr>now := Suc (now store)\<rparr>"] Suc.prems
    by (simp add: r)
qed

lemma timeoutDelay_le: "timeoutDelay delay \<le> delay"
  by (simp add: timeoutDelay_def)

lemma timeoutDelay_id: "delay < 2147483648 \<Longrightarrow> timeoutDelay delay = delay"
  by (simp add: timeoutDelay_def)

text \<open>The store after \<open>markPending\<close> and after a settling call.\<close>

lemma markPending_tracked: "tracked store \<Longrightarrow> tracked (markPending event store)"
  unfolding markPending_def
  by (intro statusEffect_tracked) (simp add: tracked_def setPending_def distinct_assign)

lemma markPending_settledTimers:
  assumes "tracked store" "settledTimers event store"
  shows "settledTimers event (markPending event store)"
proof -
  let ?s = "store\<lparr>requests := setPending event (requests store)\<rparr>"
  have "distinct (keys (requests ?s))"
    using assms(1) by (simp add: tracked_def setPending_def distinct_assign)
  moreover have "settledTimers event ?s"
    using assms(2) by (auto simp: settledTimers_def setPending_def map_of_assign)
  ultimately show ?thesis
    unfolding markPending_def by (rule statusEffect_settledTimers)
qed

lemma markResolved_arms:
  assumes "tracked store" "settledTimers event store"
    and "(case result of None \<Rightarrow> None | Some r \<Rightarrow> payload_requests r) = None"
  shows "\<forall>timer \<in> set (timers (markResolved event status result store)).
           fst (snd timer) = now store + timeoutDelay (resetDelay store)"
    and "\<exists>t. (t, now store + timeoutDelay (resetDelay store), event)
               \<in> set (timers (markResolved event status result store))"
proof -
  let ?e = "resolvedEntity status (map_option payload_fields result)"
  let ?s = "store\<lparr>requests := assign event ?e (requests store),
              hostState :=
                patchState (hostState store)
                  [Partial (payload_fields
                     (pickPayload result (keys (hostState store) @ [''requests''])))]\<rparr>"
  have eq: "markResolved event status result store = statusEffect ?s"
    using assms(3) by (simp add: markResolved_eq pickPayload_requests)
  have t: "tracked ?s"
    using assms(1) by (simp add: tracked_def distinct_assign)
  have c: "\<forall>timer \<in> set (timers ?s).
           (case map_of (requests ?s) (snd (snd timer)) of
              Some request \<Rightarrow> settled request | None \<Rightarrow> False)"
    using assms(2) settled_resolvedEntity[of status "map_option payload_fields result"]
    by (auto simp: settledTimers_def map_of_assign)
  show "\<forall>timer \<in> set (timers (markResolved event status result store)).
           fst (snd timer) = now store + timeoutDelay (resetDelay store)"
    unfolding eq using statusEffect_arms(1)[OF t c] by simp
  show "\<exists>t. (t, now store + timeoutDelay (resetDelay store), event)
               \<in> set (timers (markResolved event status result store))"
    unfolding eq
    using statusEffect_arms(2)[OF t c, of event ?e] settled_resolvedEntity assign_mem
    by (simp add: assign_mem)
qed

lemma fulfilled_snapshot:
  "(case result of None \<Rightarrow> None | Some r \<Rightarrow> payload_requests r) = None \<Longrightarrow>
   requestStatus (markResolved event status result store) event =
     getRequestSnapshot event (Some (resolvedEntity status (map_option payload_fields result)))"
  by (simp add: requestStatus_def markResolved_requests map_of_assign)

lemma requestStatus_later:
  "requestStatus (store\<lparr>now := n\<rparr>) event = requestStatus store event"
  by (simp add: requestStatus_def)

text \<open>A store of the feature is tracked: it is when created, and stays so.\<close>

lemma initialState_distinct: "distinct (keys (initialState events))"
proof -
  have "distinct (keys obj) \<Longrightarrow>
      distinct (keys (foldl (\<lambda>obj event.
          assign event \<lparr>entity_status = Idle, entity_message = JNull, entity_data = None\<rparr> obj)
        obj events))" for obj
    by (induction events arbitrary: obj) (simp_all add: distinct_assign)
  from this[of "[]"] show ?thesis by (simp add: initialState_def keys_def)
qed

lemma withRequestStatus_tracked: "tracked (withRequestStatus delay events host)"
  by (simp add: tracked_def withRequestStatus_def initialState_distinct)

lemma markResolved_tracked:
  assumes "tracked store"
    and "\<forall>r slice. result = Some r \<and> payload_requests r = Some slice \<longrightarrow> distinct (keys slice)"
  shows "tracked (markResolved event status result store)"
  unfolding markResolved_eq
  using assms
  by (intro statusEffect_tracked)
     (auto simp: tracked_def distinct_assign pickPayload_requests split: option.splits)

lemma runTimers_tracked: "tracked store \<Longrightarrow> tracked (runTimers store)"
proof -
  assume t: "tracked store"
  have "tracked (fold fire ts (store\<lparr>timers := filter P (timers store)\<rparr>))" for ts P
    using t fold_fire_distinct[of "store\<lparr>timers := filter P (timers store)\<rparr>" ts]
    by (simp add: tracked_def fold_fire_frame)
  then show ?thesis
    using t by (simp add: runTimers_def Let_def statusEffect_tracked)
qed

lemma elapse_tracked: "tracked store \<Longrightarrow> tracked (elapse ms store)"
proof (induction ms arbitrary: store)
  case 0
  then show ?case by (simp add: runTimers_tracked)
next
  case (Suc ms)
  have "tracked ((runTimers store)\<lparr>now := Suc (now (runTimers store))\<rparr>)"
    using runTimers_tracked[OF Suc.prems] by (simp add: tracked_def)
  then show ?case using Suc.IH by simp
qed

text \<open>Evaluation of \<open>elapse\<close> at a number of milliseconds written as a numeral.\<close>

lemma elapse_numeral:
  "elapse (numeral k) store =
     elapse (pred_numeral k) ((runTimers store)\<lparr>now := Suc (now (runTimers store))\<rparr>)"
  by (simp add: numeral_eq_Suc)

lemmas request_status_defs =
  markPending_def markFulfilled_def markRejected_def markResolved_def Let_def statusEffect_def
  scheduleReset_def setTimeout_def clearTimeout_def timeoutDelay_def withRequestStatus_def
  defaultResetDelay_def initialState_def assign_def setPending_def setFulfilled_def
  setRejected_def setIdle_def optional_def pickPayload_def payloadOf_def patchState_def
  spread_def pick_def keys_def runTimers_def fire_def requestStatus_def getRequestSnapshot_def
  tracked_def settledTimers_def settled_def elapse_numeral

text \<open>
  C5 fails on the code. \<open>SEARCH\<close> went back to pending while its reset timer, due at
  3 ms, was pending; the effect clears the timers of settled events only, so that
  timer stays. \<open>markFulfilled('SAVE')\<close> is called at 1 ms and again at 2 ms: one timer
  is pending for \<open>SAVE\<close>, due at 5 ms, which is \<open>resetDelay\<close> after the second call.
  At 3 ms the timer of \<open>SEARCH\<close> fires and patches the slice, the effect runs and
  replaces the timer of \<open>SAVE\<close> by one due at 6 ms: at 5 ms \<open>SAVE\<close> is still
  fulfilled, and it is idle at 6 ms only.
\<close>

theorem markFulfilled_twice_reset_delayed:
  "resetDelay searchAgain = 3 \<and> now searchAgain = 1 \<and>
   isPending (requestStatus searchAgain ''SEARCH'') \<and>
   timers searchAgain = [(0, 3, ''SEARCH'')] \<and>
   timers (markFulfilled ''SAVE'' None searchAgain) = [(0, 3, ''SEARCH''), (1, 4, ''SAVE'')] \<and>
   now (markFulfilled ''SAVE'' None (elapse 1 (markFulfilled ''SAVE'' None searchAgain))) = 2 \<and>
   timers (markFulfilled ''SAVE'' None (elapse 1 (markFulfilled ''SAVE'' None searchAgain))) =
     [(0, 3, ''SEARCH''), (2, 5, ''SAVE'')] \<and>
   now (elapse 3 (markFulfilled ''SAVE'' None
          (elapse 1 (markFulfilled ''SAVE'' None searchAgain)))) = 5 \<and>
   isFulfilled (requestStatus
     (elapse 3 (markFulfilled ''SAVE'' None
        (elapse 1 (markFulfilled ''SAVE'' None searchAgain)))) ''SAVE'') \<and>
   \<not> isIdle (requestStatus
     (elapse 3 (markFulfilled ''SAVE'' None
        (elapse 1 (markFulfilled ''SAVE'' None searchAgain)))) ''SAVE'') \<and>
   timers (elapse 3 (markFulfilled ''SAVE'' None
             (elapse 1 (markFulfilled ''SAVE'' None searchAgain)))) = [(3, 6, ''SAVE'')] \<and>
   isIdle (requestStatus
     (elapse 4 (markFulfilled ''SAVE'' None
        (elapse 1 (markFulfilled ''SAVE'' None searchAgain)))) ''SAVE'')"
  by (simp add: searchAgain_def request_status_defs)

text \<open>
  The same timer delays the reset after \<open>markPending\<close> and \<open>markFulfilled\<close>: called
  for \<open>SAVE\<close> at 1 ms, they leave \<open>SAVE\<close> fulfilled at 4 ms, when \<open>resetDelay\<close> has
  passed, and idle at 6 ms.
\<close>

lemma stale_timer_delays_reset:
  "now (elapse 3 (markFulfilled ''SAVE'' None (markPending ''SAVE'' searchAgain))) = 4 \<and>
   isFulfilled (requestStatus
     (elapse 3 (markFulfilled ''SAVE'' None (markPending ''SAVE'' searchAgain))) ''SAVE'') \<and>
   isIdle (requestStatus
     (elapse 5 (markFulfilled ''SAVE'' None (markPending ''SAVE'' searchAgain))) ''SAVE'')"
  by (simp add: searchAgain_def request_status_defs)

text \<open>
  Without such a timer the second call restarts the reset. On a tracked store in
  which every pending timer is that of the event or of a settled event,
  \<open>markFulfilled\<close> twice for the event, less than the delay apart: after the second
  call every pending timer is due one delay after that call and the event has one;
  the request stays fulfilled until then and is idle after it.
\<close>

lemma markFulfilled_twice_restarts_timer:
  assumes "tracked store" and "settledTimers event store"
    and "gap < timeoutDelay (resetDelay store)"
    and "payload_requests first = None" and "payload_requests second = None"
  shows "(\<forall>timer \<in> set (timers
             (markFulfilled event (Some second)
                (elapse gap (markFulfilled event (Some first) store)))).
            fst (snd timer) = now store + gap + timeoutDelay (resetDelay store)) \<and>
         (\<exists>t. (t, now store + gap + timeoutDelay (resetDelay store), event) \<in> set (timers
             (markFulfilled event (Some second)
                (elapse gap (markFulfilled event (Some first) store))))) \<and>
         (\<forall>ms < timeoutDelay (resetDelay store).
            isFulfilled (requestStatus
              (elapse ms (markFulfilled event (Some second)
                 (elapse gap (markFulfilled event (Some first) store)))) event)) \<and>
         isIdle (requestStatus
           (elapse (timeoutDelay (resetDelay store))
              (markFulfilled event (Some second)
                 (elapse gap (markFulfilled event (Some first) store)))) event)"
proof -
  let ?D = "timeoutDelay (resetDelay store)"
  let ?s1 = "markFulfilled event (Some first) store"
  let ?g = "elapse gap ?s1"
  let ?s2 = "markFulfilled event (Some second) ?g"
  have t1: "tracked ?s1"
    unfolding markFulfilled_def using assms(1,4) by (intro markResolved_tracked) auto
  have d1: "\<forall>timer \<in> set (timers ?s1). fst (snd timer) = now store + ?D"
    unfolding markFulfilled_def
    using markResolved_arms(1)[OF assms(1,2), of "Some first" Fulfilled] assms(4) by simp
  have f1: "now ?s1 = now store" "resetDelay ?s1 = resetDelay store"
    by (simp_all add: markFulfilled_def markResolved_frame)
  have g: "?g = ?s1\<lparr>now := now store + gap\<rparr>"
    using elapse_waits[OF d1, of gap] assms(3) f1 by simp
  have tg: "tracked ?g" unfolding g using t1 by (simp add: tracked_def)
  have e1: "map_of (requests ?s1) event =
      Some (resolvedEntity Fulfilled (Some (payload_fields first)))"
    using assms(4) by (simp add: markFulfilled_def markResolved_requests map_of_assign)
  have sg: "settledTimers event ?g"
  proof -
    have "distinct (keys (requests (store\<lparr>requests :=
        assign event (resolvedEntity Fulfilled (Some (payload_fields first))) (requests store),
        hostState := h\<rparr>)))" for h
      using assms(1) by (simp add: tracked_def distinct_assign)
    moreover have "settledTimers event (store\<lparr>requests :=
        assign event (resolvedEntity Fulfilled (Some (payload_fields first))) (requests store),
        hostState := h\<rparr>)" for h
      using assms(2) by (auto simp: settledTimers_def map_of_assign)
    ultimately have "settledTimers event ?s1"
      unfolding markFulfilled_def markResolved_eq
      using assms(4) by (simp add: pickPayload_requests statusEffect_settledTimers)
    then show ?thesis unfolding g by (simp add: settledTimers_def)
  qed
  have fg: "now ?g = now store + gap" "resetDelay ?g = resetDelay store"
    unfolding g using f1 by simp_all
  have d2: "\<forall>timer \<in> set (timers ?s2). fst (snd timer) = now store + gap + ?D"
    using markResolved_arms(1)[OF tg sg, of "Some second" Fulfilled] assms(5) fg
    by (simp add: markFulfilled_def)
  have a2: "\<exists>t. (t, now store + gap + ?D, event) \<in> set (timers ?s2)"
    using markResolved_arms(2)[OF tg sg, of "Some second" Fulfilled] assms(5) fg
    by (simp add: markFulfilled_def)
  have f2: "now ?s2 = now store + gap"
    using fg by (simp add: markFulfilled_def markResolved_frame)
  have snap2: "isFulfilled (requestStatus ?s2 event)"
    unfolding markFulfilled_def using assms(5)
    by (simp add: fulfilled_snapshot getRequestSnapshot_def resolvedEntity_def)
  have early: "isFulfilled (requestStatus (elapse ms ?s2) event)" if "ms < ?D" for ms
  proof -
    have "elapse ms ?s2 = ?s2\<lparr>now := now ?s2 + ms\<rparr>"
      using elapse_waits[OF d2, of ms] that f2 by simp
    then show ?thesis using snap2 by (simp add: requestStatus_later)
  qed
  obtain t where t: "(t, now store + gap + ?D, event) \<in> set (timers ?s2)"
    using a2 by blast
  have "map_of (requests (elapse ?D ?s2)) event =
      Some \<lparr>entity_status = Idle, entity_message = JNull, entity_data = None\<rparr>"
    using elapse_resets[OF d2 t, of ?D] f2 by simp
  then have idle: "isIdle (requestStatus (elapse ?D ?s2) event)"
    by (simp add: requestStatus_def getRequestSnapshot_def)
  show ?thesis using d2 a2 early idle by blast
qed

text \<open>
  C2, as amended. On a tracked store in which every pending timer is that of the
  event or of a settled event, \<open>markPending\<close> and then \<open>markFulfilled\<close> with a payload
  that holds truthy data and a message, and no field \<open>requests\<close>, give the snapshot
  \<open>isFulfilled = true\<close>, \<open>isPending = false\<close>, the data supplied, and the message
  supplied, where an empty message reads as null. Once \<open>resetDelay\<close> has passed with
  no further call, the snapshot is idle with message null and data null.
\<close>

theorem markPending_markFulfilled_then_reset:
  assumes "tracked store" and "settledTimers event store"
    and "payload_requests payload = None"
    and "map_of (payload_fields payload) ''data'' = Some data" and "truthy data"
    and "map_of (payload_fields payload) ''message'' = Some (JStr message)"
  shows "requestStatus (markFulfilled event (Some payload) (markPending event store)) event =
           \<lparr>snap_event = event, snap_data = data, snap_status = Fulfilled,
            snap_message = (if message = [] then JNull else JStr message),
            isPending = False, isDisabled = False, isRejected = False,
            isFulfilled = True, isIdle = False\<rparr> \<and>
         requestStatus
           (elapse (resetDelay store)
              (markFulfilled event (Some payload) (markPending event store))) event =
           \<lparr>snap_event = event, snap_data = JNull, snap_status = Idle, snap_message = JNull,
            isPending = False, isDisabled = False, isRejected = False,
            isFulfilled = False, isIdle = True\<rparr>"
proof -
  let ?p = "markPending event store"
  let ?f = "markFulfilled event (Some payload) ?p"
  let ?due = "now store + timeoutDelay (resetDelay store)"
  have tp: "tracked ?p" by (rule markPending_tracked[OF assms(1)])
  have sp: "settledTimers event ?p" by (rule markPending_settledTimers[OF assms(1,2)])
  have fp: "now ?p = now store" "resetDelay ?p = resetDelay store"
    by (simp_all add: markPending_frame)
  have d: "\<forall>timer \<in> set (timers ?f). fst (snd timer) = ?due"
    using markResolved_arms(1)[OF tp sp, of "Some payload" Fulfilled] assms(3) fp
    by (simp add: markFulfilled_def)
  obtain t where t: "(t, ?due, event) \<in> set (timers ?f)"
    using markResolved_arms(2)[OF tp sp, of "Some payload" Fulfilled] assms(3) fp
    by (auto simp: markFulfilled_def)
  have ff: "now ?f = now store"
    using fp by (simp add: markFulfilled_def markResolved_frame)
  have first: "requestStatus ?f event =
           \<lparr>snap_event = event, snap_data = data, snap_status = Fulfilled,
            snap_message = (if message = [] then JNull else JStr message),
            isPending = False, isDisabled = False, isRejected = False,
            isFulfilled = True, isIdle = False\<rparr>"
    using assms(3,4,5,6)
    by (simp add: markFulfilled_def fulfilled_snapshot getRequestSnapshot_def resolvedEntity_def
          optional_def)
  have "map_of (requests (elapse (resetDelay store) ?f)) event =
      Some \<lparr>entity_status = Idle, entity_message = JNull, entity_data = None\<rparr>"
    using elapse_resets[OF d t, of "resetDelay store"] ff timeoutDelay_le[of "resetDelay store"]
    by simp
  then have last: "requestStatus (elapse (resetDelay store) ?f) event =
           \<lparr>snap_event = event, snap_data = JNull, snap_status = Idle, snap_message = JNull,
            isPending = False, isDisabled = False, isRejected = False,
            isFulfilled = False, isIdle = True\<rparr>"
    by (simp add: requestStatus_def getRequestSnapshot_def)
  show ?thesis using first last by simp
qed

text \<open>
  Events \<open>['LOAD', 'SAVE']\<close> with the default delay, \<open>SAVE\<close> fulfilled and its reset
  timer pending, and the payload \<open>{message: 'ok', data: [1, 2, 3]}\<close> for \<open>LOAD\<close>.
\<close>

theorem markPending_markFulfilled_then_reset_witness:
  "tracked (markFulfilled ''SAVE'' None (withRequestStatus defaultResetDelay [''LOAD'', ''SAVE''] [])) \<and>
   settledTimers ''LOAD''
     (markFulfilled ''SAVE'' None (withRequestStatus defaultResetDelay [''LOAD'', ''SAVE''] [])) \<and>
   timers (markFulfilled ''SAVE'' None (withRequestStatus defaultResetDelay [''LOAD'', ''SAVE''] []))
     = [(0, 1500, ''SAVE'')] \<and>
   requestStatus
     (markFulfilled ''LOAD''
        (Some (payloadOf [(''message'', JStr ''ok''), (''data'', JArr [JNum 1, JNum 2, JNum 3])]))
        (markPending ''LOAD''
           (markFulfilled ''SAVE'' None
              (withRequestStatus defaultResetDelay [''LOAD'', ''SAVE''] [])))) ''LOAD'' =
     \<lparr>snap_event = ''LOAD'', snap_data = JArr [JNum 1, JNum 2, JNum 3], snap_status = Fulfilled,
      snap_message = JStr ''ok'', isPending = False, isDisabled = False, isRejected = False,
      isFulfilled = True, isIdle = False\<rparr> \<and>
   requestStatus
     (elapse 1500
        (markFulfilled ''LOAD''
           (Some (payloadOf [(''message'', JStr ''ok''), (''data'', JArr [JNum 1, JNum 2, JNum 3])]))
           (markPending ''LOAD''
              (markFulfilled ''SAVE'' None
                 (withRequestStatus defaultResetDelay [''LOAD'', ''SAVE''] []))))) ''LOAD'' =
     \<lparr>snap_event = ''LOAD'', snap_data = JNull, snap_status = Idle, snap_message = JNull,
      isPending = False, isDisabled = False, isRejected = False,
      isFulfilled = False, isIdle = True\<rparr>"
proof -
  let ?s = "markFulfilled ''SAVE'' None (withRequestStatus defaultResetDelay [''LOAD'', ''SAVE''] [])"
  let ?p = "payloadOf [(''message'', JStr ''ok''), (''data'', JArr [JNum 1, JNum 2, JNum 3])]"
  have s: "?s = \<lparr>requests = [(''LOAD'', \<lparr>entity_status = Idle, entity_message = JNull, entity_data = None\<rparr>),
                                (''SAVE'', \<lparr>entity_status = Fulfilled, entity_message = JNull, entity_data = None\<rparr>)],
                   hostState = [], eventTimeouts = [(''SAVE'', 0)], timers = [(0, 1500, ''SAVE'')],
                   nextTimer = 1, now = 0, resetDelay = 1500\<rparr>"
    by (simp add: request_status_defs)
  have 1: "tracked ?s" unfolding s by (simp add: tracked_def keys_def)
  have 2: "settledTimers ''LOAD'' ?s" unfolding s by (simp add: settledTimers_def settled_def)
  have 3: "payload_requests ?p = None" by (simp add: payloadOf_def)
  have 4: "map_of (payload_fields ?p) ''data'' = Some (JArr [JNum 1, JNum 2, JNum 3])"
    by (simp add: payloadOf_def)
  have 5: "truthy (JArr [JNum 1, JNum 2, JNum 3])" by simp
  have 6: "map_of (payload_fields ?p) ''message'' = Some (JStr ''ok'')"
    by (simp add: payloadOf_def)
  have r: "resetDelay ?s = 1500" "timers ?s = [(0, 1500, ''SAVE'')]" unfolding s by simp_all
  show ?thesis
    using 1 2 r markPending_markFulfilled_then_reset[OF 1 2 3 4 5 6]
    by simp
qed

text \<open>
  C2 as stated fails for the message \<open>''\<close>: the snapshot's message is null, not the
  message supplied.
\<close>

theorem markFulfilled_empty_message_counterexample:
  "snap_message
     (requestStatus
        (markFulfilled ''LOAD''
           (Some (payloadOf [(''message'', JStr ''''), (''data'', JArr [JNum 1, JNum 2, JNum 3])]))
           (markPending ''LOAD'' (withRequestStatus defaultResetDelay [''LOAD''] []))) ''LOAD'')
     = JNull \<and>
   snap_message
     (requestStatus
        (markFulfilled ''LOAD''
           (Some (payloadOf [(''message'', JStr ''''), (''data'', JArr [JNum 1, JNum 2, JNum 3])]))
           (markPending ''LOAD'' (withRequestStatus defaultResetDelay [''LOAD''] []))) ''LOAD'')
     \<noteq> JStr ''''"
  by (simp add: markFulfilled_def fulfilled_snapshot getRequestSnapshot_def resolvedEntity_def
        optional_def payloadOf_def)

text \<open>
  C3, as amended. \<open>markPending(event)\<close> replaces the entity of the event by
  \<open>{status: 'pending', message: null}\<close>: a data field of the prior entity is removed and
  the snapshot's data reads null. The entities of the other events and the host state
  stay as they are.
\<close>

theorem markPending_replaces_entity:
  "map_of (requests (markPending event store)) event =
     Some \<lparr>entity_status = Pending, entity_message = JNull, entity_data = None\<rparr> \<and>
   snap_data (requestStatus (markPending event store) event) = JNull \<and>
   (\<forall>other. other \<noteq> event \<longrightarrow>
      map_of (requests (markPending event store)) other = map_of (requests store) other) \<and>
   hostState (markPending event store) = hostState store"
  by (simp add: markPending_def statusEffect_frame setPending_def map_of_assign
        requestStatus_def getRequestSnapshot_def)

text \<open>With \<open>SAVE\<close> fulfilled, \<open>markPending('LOAD')\<close> leaves the entity of \<open>SAVE\<close> alone.\<close>

theorem markPending_replaces_entity_witness:
  "''SAVE'' \<noteq> ''LOAD'' \<and>
   map_of (requests (markPending ''LOAD''
      (markFulfilled ''SAVE'' (Some (payloadOf [(''data'', JNum 7)]))
         (withRequestStatus defaultResetDelay [''LOAD'', ''SAVE''] [])))) ''LOAD'' =
     Some \<lparr>entity_status = Pending, entity_message = JNull, entity_data = None\<rparr> \<and>
   map_of (requests (markPending ''LOAD''
      (markFulfilled ''SAVE'' (Some (payloadOf [(''data'', JNum 7)]))
         (withRequestStatus defaultResetDelay [''LOAD'', ''SAVE''] [])))) ''SAVE'' =
     Some \<lparr>entity_status = Fulfilled, entity_message = JNull, entity_data = Some (JNum 7)\<rparr>"
  using markPending_replaces_entity
    [of "''LOAD''" "markFulfilled ''SAVE'' (Some (payloadOf [(''data'', JNum 7)]))
         (withRequestStatus defaultResetDelay [''LOAD'', ''SAVE''] [])"]
  by (simp add: markFulfilled_def markResolved_requests map_of_assign resolvedEntity_def
        optional_def payloadOf_def)

text \<open>
  C3 as stated fails: the entity of \<open>LOAD\<close> holds data after \<open>markFulfilled\<close>, and none
  after \<open>markPending\<close>.
\<close>

theorem markPending_drops_data_counterexample:
  "map_option entity_data
     (map_of (requests
        (markFulfilled ''LOAD''
           (Some (payloadOf [(''message'', JStr ''ok''), (''data'', JArr [JNum 1])]))
           (withRequestStatus defaultResetDelay [''LOAD''] []))) ''LOAD'')
     = Some (Some (JArr [JNum 1])) \<and>
   map_option entity_data
     (map_of (requests
        (markPending ''LOAD''
           (markFulfilled ''LOAD''
              (Some (payloadOf [(''message'', JStr ''ok''), (''data'', JArr [JNum 1])]))
              (withRequestStatus defaultResetDelay [''LOAD''] [])))) ''LOAD'')
     = Some None"
  by (simp add: markFulfilled_def markResolved_requests markPending_def statusEffect_frame
        setPending_def map_of_assign resolvedEntity_def optional_def payloadOf_def)

text \<open>
  C4, as amended. \<open>markFulfilled\<close> and \<open>markRejected\<close> are \<open>markResolved\<close> with their
  status. For a payload without a field \<open>requests\<close> the entity of the event is
  replaced by one with that status; its message is the payload's message when that is
  a non-empty string and null otherwise, so null when the payload omits it; its data
  is the payload's data when that is truthy, the entity has no data when the payload
  gives none, and the data is never stored as null (data of an earlier entity is not
  kept); the entities of the other events stay. In the same patch, after the status
  update, every payload field whose name is a key of the store's state is written to
  the state: a field of the host state takes the payload's value and no other key of
  the host state changes, and a field \<open>requests\<close> of the payload replaces the whole
  slice, the status update included.
\<close>

theorem settle_replaces_entity_and_merges_payload:
  "markFulfilled event result store = markResolved event Fulfilled result store \<and>
   markRejected event result store = markResolved event Rejected result store \<and>
   (status = Fulfilled \<or> status = Rejected \<longrightarrow>
     ((case result of None \<Rightarrow> None | Some r \<Rightarrow> payload_requests r) = None \<longrightarrow>
        (\<exists>entity.
           map_of (requests (markResolved event status result store)) event = Some entity \<and>
           entity_status entity = status \<and>
           entity_message entity =
             (if truthy (optional (map_option payload_fields result) ''message'')
              then optional (map_option payload_fields result) ''message'' else JNull) \<and>
           (truthy (optional (map_option payload_fields result) ''data'') \<longrightarrow>
              entity_data entity = Some (optional (map_option payload_fields result) ''data'')) \<and>
           (optional (map_option payload_fields result) ''data'' = JNull \<longrightarrow>
              entity_data entity = None) \<and>
           entity_data entity \<noteq> Some JNull) \<and>
        (\<forall>other. other \<noteq> event \<longrightarrow>
           map_of (requests (markResolved event status result store)) other =
             map_of (requests store) other)) \<and>
     (\<forall>r slice. result = Some r \<and> payload_requests r = Some slice \<longrightarrow>
        requests (markResolved event status result store) = slice) \<and>
     (\<forall>k. map_of (hostState (markResolved event status result store)) k =
        (case (case result of None \<Rightarrow> None | Some r \<Rightarrow> map_of (payload_fields r) k) of
           Some v \<Rightarrow> if k \<in> set (keys (hostState store)) then Some v
                     else map_of (hostState store) k
         | None \<Rightarrow> map_of (hostState store) k)))"
proof -
  let ?obj = "map_option payload_fields result"
  have host: "map_of (hostState (markResolved event status result store)) k =
        (case (case result of None \<Rightarrow> None | Some r \<Rightarrow> map_of (payload_fields r) k) of
           Some v \<Rightarrow> if k \<in> set (keys (hostState store)) then Some v
                     else map_of (hostState store) k
         | None \<Rightarrow> map_of (hostState store) k)" for k
    by (cases result)
       (auto simp: markResolved_eq statusEffect_frame map_of_patchState_partial map_of_pick
          pickPayload_def split: option.splits)
  have slice: "requests (markResolved event status result store) = slice"
    if "result = Some r" "payload_requests r = Some slice" for r slice
    using that by (simp add: markResolved_requests)
  have ent: "map_of (requests (markResolved event status result store)) event =
      Some (resolvedEntity status ?obj)"
    and others: "\<forall>other. other \<noteq> event \<longrightarrow>
           map_of (requests (markResolved event status result store)) other =
             map_of (requests store) other"
    if "(case result of None \<Rightarrow> None | Some r \<Rightarrow> payload_requests r) = None"
    using that by (simp_all add: markResolved_requests map_of_assign)
  have "status = Fulfilled \<or> status = Rejected \<Longrightarrow>
      entity_status (resolvedEntity status ?obj) = status"
    by (auto simp: resolvedEntity_def)
  moreover have "entity_message (resolvedEntity status ?obj) =
      (if truthy (optional ?obj ''message'') then optional ?obj ''message'' else JNull)"
    by (simp add: resolvedEntity_def)
  moreover have "truthy (optional ?obj ''data'') \<longrightarrow>
      entity_data (resolvedEntity status ?obj) = Some (optional ?obj ''data'')"
    by (simp add: resolvedEntity_def)
  moreover have "optional ?obj ''data'' = JNull \<longrightarrow>
      entity_data (resolvedEntity status ?obj) = None"
    by (simp add: resolvedEntity_def)
  moreover have "entity_data (resolvedEntity status ?obj) \<noteq> Some JNull"
    by (auto simp: resolvedEntity_def)
  ultimately show ?thesis
    using ent others host slice by (simp add: markFulfilled_def markRejected_def)
qed

text \<open>
  A sign-in whose payload carries \<open>session\<close>, a key of the host state, and \<open>other\<close>,
  which is none; a rejection without a payload; and a payload with the field
  \<open>requests: {}\<close>, after which the slice is empty and the snapshot of the event idle.
\<close>

theorem settle_replaces_entity_and_merges_payload_witness:
  "map_of (requests (markFulfilled ''SIGN_IN''
      (Some (payloadOf [(''data'', JNum 7), (''message'', JStr ''done''),
                        (''session'', JStr ''abc''), (''other'', JNum 1)]))
      (withRequestStatus defaultResetDelay [''SIGN_IN''] [(''session'', JNull)]))) ''SIGN_IN'' =
     Some \<lparr>entity_status = Fulfilled, entity_message = JStr ''done'',
           entity_data = Some (JNum 7)\<rparr> \<and>
   map_of (hostState (markFulfilled ''SIGN_IN''
      (Some (payloadOf [(''data'', JNum 7), (''message'', JStr ''done''),
                        (''session'', JStr ''abc''), (''other'', JNum 1)]))
      (withRequestStatus defaultResetDelay [''SIGN_IN''] [(''session'', JNull)]))) ''session'' =
     Some (JStr ''abc'') \<and>
   map_of (hostState (markFulfilled ''SIGN_IN''
      (Some (payloadOf [(''data'', JNum 7), (''message'', JStr ''done''),
                        (''session'', JStr ''abc''), (''other'', JNum 1)]))
      (withRequestStatus defaultResetDelay [''SIGN_IN''] [(''session'', JNull)]))) ''other'' = None \<and>
   map_of (requests (markRejected ''SIGN_IN'' None
      (withRequestStatus defaultResetDelay [''SIGN_IN''] [(''session'', JNull)]))) ''SIGN_IN'' =
     Some \<lparr>entity_status = Rejected, entity_message = JNull, entity_data = None\<rparr> \<and>
   requests (markFulfilled ''SIGN_IN''
      (Some \<lparr>payload_fields = [(''message'', JStr ''ok'')], payload_requests = Some []\<rparr>)
      (withRequestStatus defaultResetDelay [''SIGN_IN''] [(''session'', JNull)])) = [] \<and>
   snap_status (requestStatus (markFulfilled ''SIGN_IN''
      (Some \<lparr>payload_fields = [(''message'', JStr ''ok'')], payload_requests = Some []\<rparr>)
      (withRequestStatus defaultResetDelay [''SIGN_IN''] [(''session'', JNull)])) ''SIGN_IN'') = Idle"
proof -
  let ?r = "Some (payloadOf [(''data'', JNum 7), (''message'', JStr ''done''),
                  (''session'', JStr ''abc''), (''other'', JNum 1)])"
  let ?q = "Some \<lparr>payload_fields = [(''message'', JStr ''ok'')], payload_requests = Some []\<rparr>"
  let ?s = "withRequestStatus defaultResetDelay [''SIGN_IN''] [(''session'', JNull)]"
  note a = settle_replaces_entity_and_merges_payload[of "''SIGN_IN''" ?r ?s Fulfilled]
  note b = settle_replaces_entity_and_merges_payload[of "''SIGN_IN''" None ?s Rejected]
  note c = settle_replaces_entity_and_merges_payload[of "''SIGN_IN''" ?q ?s Fulfilled]
  have h: "hostState ?s = [(''session'', JNull)]" by (simp add: withRequestStatus_def)
  have o: "optional (map_option payload_fields ?r) ''data'' = JNum 7"
    "optional (map_option payload_fields ?r) ''message'' = JStr ''done''"
    "optional (map_option payload_fields None) ''data'' = JNull"
    "optional (map_option payload_fields None) ''message'' = JNull"
    by (simp_all add: optional_def payloadOf_def)
  have n: "(case ?r of None \<Rightarrow> None | Some r \<Rightarrow> payload_requests r) = None"
    by (simp add: payloadOf_def)
  from a n have a1: "map_of (requests (markFulfilled ''SIGN_IN'' ?r ?s)) ''SIGN_IN'' =
     Some \<lparr>entity_status = Fulfilled, entity_message = JStr ''done'',
           entity_data = Some (JNum 7)\<rparr>"
    unfolding o by (auto simp del: map_of.simps)
  from a have a2: "map_of (hostState (markFulfilled ''SIGN_IN'' ?r ?s)) ''session'' =
       Some (JStr ''abc'')"
    "map_of (hostState (markFulfilled ''SIGN_IN'' ?r ?s)) ''other'' = None"
    unfolding h by (simp_all add: keys_def payloadOf_def)
  from b have b1: "map_of (requests (markRejected ''SIGN_IN'' None ?s)) ''SIGN_IN'' =
     Some \<lparr>entity_status = Rejected, entity_message = JNull, entity_data = None\<rparr>"
    unfolding o by (auto simp del: map_of.simps)
  from c have c1: "requests (markFulfilled ''SIGN_IN'' ?q ?s) = []"
    by simp
  then have c2: "snap_status (requestStatus (markFulfilled ''SIGN_IN'' ?q ?s) ''SIGN_IN'') = Idle"
    by (simp add: requestStatus_def getRequestSnapshot_def)
  show ?thesis using a1 a2 b1 c1 c2 by simp
qed

text \<open>
  C4 as stated fails: with the payload omitted the stored message is null, not the
  empty string.
\<close>

theorem settle_omitted_message_counterexample:
  "map_option entity_message
     (map_of (requests (markFulfilled ''LOAD'' None
        (withRequestStatus defaultResetDelay [''LOAD''] []))) ''LOAD'') = Some JNull \<and>
   map_option entity_message
     (map_of (requests (markFulfilled ''LOAD'' None
        (withRequestStatus defaultResetDelay [''LOAD''] []))) ''LOAD'') \<noteq> Some (JStr '''')"
  by (simp add: markFulfilled_def markResolved_requests map_of_assign resolvedEntity_def
        optional_def)

subsection \<open>Storage\<close>








text \<open>
  C1 fails on the code. A tab of \<open>LayoutStore\<close> in mode \<open>extended\<close> receives the
  message that another tab posted for \<open>compact\<close>. The handler merges it and writes
  the storage; the patch has written the signal of \<open>platformLayoutMode\<close>, so the
  effect runs and posts \<open>compact\<close> on the channel again.
\<close>

theorem deliver_posts_on_channel:
  "broadcastStream layoutTab = Some ''layout-channel'' \<and>
   tab_state layoutTab = layoutState \<and>
   posted layoutTab = [''extended''] \<and>
   fst (deliver ''layout'' layoutOptions ''compact'' layoutTab) = Inr () \<and>
   map_of (tab_state (snd (deliver ''layout'' layoutOptions ''compact'' layoutTab)))
     ''platformLayoutMode'' = Some (JStr ''compact'') \<and>
   storageItems (snd (deliver ''layout'' layoutOptions ''compact'' layoutTab)) =
     [(''layout'', ''compact'')] \<and>
   posted (snd (deliver ''layout'' layoutOptions ''compact'' layoutTab)) =
     [''extended'', ''compact'']"
  by (simp add: layoutTab_def onInit_storage_def browser_def layoutOptions_def layoutState_def
        newTab_def deliver_def onmessage_def persistEffect_def persistableState_def
        andThen_def tryCatch_def call_def ret_def postMessage_def notifyChange_def
        storage_setItem_def storage_getItem_def localStorage_def assign_def
        rehydratePersistedState_def resolvePersistedState_def sanitizeAndUpdateState_def
        setupBroadcastListener_def channelIdentifier_def fieldSerialize_def
        fieldDeserialize_def pick_def keys_def patchState_def spread_def Let_def
        writesSignal_def)

text \<open>
  A field that holds an object is written by every message that carries it, also by
  one that carries an equal value: the state stays as it is, and the effect posts
  again.
\<close>

lemma deliver_echoes_equal_object:
  "tab_state (snd (deliver ''app'' (stubOptions [''filters''] ''{}'' [(''filters'', JObj [])]) ''{}''
      ((newTab [(''filters'', JObj [])] [])\<lparr>broadcastStream := Some ''app-channel''\<rparr>))) =
     [(''filters'', JObj [])] \<and>
   posted (snd (deliver ''app'' (stubOptions [''filters''] ''{}'' [(''filters'', JObj [])]) ''{}''
      ((newTab [(''filters'', JObj [])] [])\<lparr>broadcastStream := Some ''app-channel''\<rparr>))) =
     [''{}'']"
  by (simp add: deliver_def onmessage_def persistEffect_def persistableState_def stubOptions_def
        newTab_def andThen_def tryCatch_def call_def ret_def postMessage_def notifyChange_def
        storage_setItem_def localStorage_def assign_def sanitizeAndUpdateState_def pick_def
        keys_def patchState_def spread_def Let_def writesSignal_def)











text \<open>The handler by itself, before the effect runs, posts nothing.\<close>

lemma onmessage_posts_nothing:
  "posted (snd (onmessage key options message tab)) = posted tab"
  by (auto simp: onmessage_def andThen_def tryCatch_def call_def ret_def exception_def
        sanitizeAndUpdateState_def notifyChange_def storage_setItem_def Let_def
        split: sum.splits option.splits prod.splits if_splits)

end
